theory Spec2Isabelle
  imports Main "HOL-Library.Sublist"
begin

section \<open>Strings and character classes\<close>

text \<open>
  The resolver of \<^verbatim>\<open>static-resolver.service.ts\<close> works on JavaScript strings. A string
  is modelled as a \<open>string\<close>, one \<open>char\<close> per code unit, so the model covers the code
  units 0..255 (Latin-1). The character classes are those of a JavaScript regular
  expression without the \<^verbatim>\<open>u\<close> and \<^verbatim>\<open>i\<close> flags: \<^verbatim>\<open>\d\<close> is \<^verbatim>\<open>[0-9]\<close>, \<^verbatim>\<open>\w\<close> is
  \<^verbatim>\<open>[A-Za-z0-9_]\<close>, and \<^verbatim>\<open>\s\<close> is white space and line terminators (in this range:
  TAB, LF, VT, FF, CR, SPACE and NBSP). A code unit above 255 is no digit and no word
  character; the Unicode spaces and the byte order mark among them would be \<^verbatim>\<open>\s\<close>.
\<close>

definition is_digit :: "char \<Rightarrow> bool" where
  "is_digit c = (c \<in> set ''0123456789'')"

definition is_word :: "char \<Rightarrow> bool" where
  "is_word c =
     (c \<in> set ''abcdefghijklmnopqrstuvwxyzABCDEFGHIJKLMNOPQRSTUVWXYZ0123456789_'')"

definition is_space :: "char \<Rightarrow> bool" where
  "is_space c =
     (c \<in> set [CHR 0x09, CHR 0x0A, CHR 0x0B, CHR 0x0C, CHR 0x0D, CHR 0x20, CHR 0xA0])"

text \<open>The members of a bracketed class, and the escapes that stand alone.\<close>

datatype cls = Space | NonSpace | Word | Digit | Ch char

fun cls_mem :: "cls \<Rightarrow> char \<Rightarrow> bool" where
  "cls_mem Space c = is_space c"
| "cls_mem NonSpace c = (\<not> is_space c)"
| "cls_mem Word c = is_word c"
| "cls_mem Digit c = is_digit c"
| "cls_mem (Ch d) c = (c = d)"

section \<open>Regular expressions with backtracking\<close>

text \<open>
  The fragment of the pattern language the source uses: literal characters, classes,
  the anchors \<^verbatim>\<open>^\<close> and \<^verbatim>\<open>$\<close> (no \<^verbatim>\<open>m\<close> flag: start and end of input), sequence,
  the greedy quantifiers \<^verbatim>\<open>*\<close> and \<^verbatim>\<open>+\<close>, the lazy \<^verbatim>\<open>*?\<close>, and capture groups.
  No pattern of the source has a group inside a quantifier, where ECMAScript would clear
  the group at the start of every iteration; the matcher below does not model that.
\<close>

datatype rx =
    Eps
  | Chr char
  | Cls "cls list"
  | Bol
  | Eol
  | Seq rx rx
  | Star rx
  | Lazy rx
  | Plus rx
  | Grp nat rx

type_synonym caps = "nat \<Rightarrow> string option"

text \<open>
  \<open>rmatch r s i c\<close> lists every way \<open>r\<close> matches \<open>s\<close> from position \<open>i\<close> with the
  captures \<open>c\<close>, as (end position, captures), in the order in which the backtracking
  matcher of ECMAScript tries them: the head of the list is the match it reports. An
  iteration of a quantifier that consumes nothing is rejected, as in the language's
  RepeatMatcher. The first argument of \<open>greedy\<close> and \<open>lazy\<close> bounds the number of
  iterations; each iteration consumes a character, so the characters left are enough
  (\<open>quantifier_bound_is_enough\<close> below: a larger bound gives the same list).
\<close>

primrec greedy :: "nat \<Rightarrow> (nat \<Rightarrow> caps \<Rightarrow> (nat \<times> caps) list) \<Rightarrow> nat \<Rightarrow> caps \<Rightarrow> (nat \<times> caps) list" where
  "greedy 0 m i c = [(i, c)]"
| "greedy (Suc n) m i c =
     concat (map (\<lambda>(j, c'). if i < j then greedy n m j c' else []) (m i c)) @ [(i, c)]"

primrec lazy :: "nat \<Rightarrow> (nat \<Rightarrow> caps \<Rightarrow> (nat \<times> caps) list) \<Rightarrow> nat \<Rightarrow> caps \<Rightarrow> (nat \<times> caps) list" where
  "lazy 0 m i c = [(i, c)]"
| "lazy (Suc n) m i c =
     (i, c) # concat (map (\<lambda>(j, c'). if i < j then lazy n m j c' else []) (m i c))"

definition substring :: "string \<Rightarrow> nat \<Rightarrow> nat \<Rightarrow> string" where
  "substring s i j = take (j - i) (drop i s)"

primrec rmatch :: "rx \<Rightarrow> string \<Rightarrow> nat \<Rightarrow> caps \<Rightarrow> (nat \<times> caps) list" where
  "rmatch Eps s i c = [(i, c)]"
| "rmatch (Chr d) s i c = (if i < length s \<and> s ! i = d then [(Suc i, c)] else [])"
| "rmatch (Cls ms) s i c =
     (if i < length s \<and> list_ex (\<lambda>m. cls_mem m (s ! i)) ms then [(Suc i, c)] else [])"
| "rmatch Bol s i c = (if i = 0 then [(i, c)] else [])"
| "rmatch Eol s i c = (if i = length s then [(i, c)] else [])"
| "rmatch (Seq a b) s i c = concat (map (\<lambda>(j, c'). rmatch b s j c') (rmatch a s i c))"
| "rmatch (Star r) s i c = greedy (length s - i) (rmatch r s) i c"
| "rmatch (Lazy r) s i c = lazy (length s - i) (rmatch r s) i c"
| "rmatch (Plus r) s i c =
     concat (map (\<lambda>(j, c'). greedy (length s - j) (rmatch r s) j c') (rmatch r s i c))"
| "rmatch (Grp n r) s i c =
     map (\<lambda>(j, c'). (j, c'(n \<mapsto> substring s i j))) (rmatch r s i c)"

text \<open>A pattern written as the sequence of its parts, and a literal word.\<close>

definition seqs :: "rx list \<Rightarrow> rx" where
  "seqs rs = foldr Seq rs Eps"

definition lit :: "string \<Rightarrow> rx" where
  "lit w = seqs (map Chr w)"

text \<open>The groups a pattern sets in every one of its matches.\<close>

fun binds :: "rx \<Rightarrow> nat \<Rightarrow> bool" where
  "binds (Grp n r) k = (n = k \<or> binds r k)"
| "binds (Seq a b) k = (binds a k \<or> binds b k)"
| "binds (Plus r) k = binds r k"
| "binds r k = False"

subsection \<open>exec: the leftmost match at or after lastIndex\<close>

text \<open>
  RegExpBuiltinExec: starting at \<open>lastIndex\<close>, the first position at which the pattern
  matches; past the end of the input there is no match.
\<close>

function search :: "rx \<Rightarrow> string \<Rightarrow> nat \<Rightarrow> (nat \<times> nat \<times> caps) option" where
  "search r s i =
     (if length s < i then None
      else case rmatch r s i (\<lambda>_. None) of
             [] \<Rightarrow> search r s (Suc i)
           | (e, c) # _ \<Rightarrow> Some (i, e, c))"
  by pat_completeness auto
termination
  by (relation "measure (\<lambda>(r, s, i). Suc (length s) - i)") auto

declare search.simps [simp del]

text \<open>
  The array \<open>exec\<close> returns: \<open>index\<close> is where the match starts, \<open>groups 0\<close> is the
  matched text and \<open>groups n\<close> the text of capture group \<open>n\<close> (\<open>None\<close>: undefined).
\<close>

record RegExpExecArray =
  index :: nat
  groups :: caps

text \<open>
  \<open>exec r s li\<close> for a pattern with the \<^verbatim>\<open>g\<close> flag whose \<open>lastIndex\<close> is \<open>li\<close>: the
  result (\<open>None\<close> is \<^verbatim>\<open>null\<close>) and the new \<open>lastIndex\<close>, the end of the match, or 0
  when there is none.
\<close>

definition exec :: "rx \<Rightarrow> string \<Rightarrow> nat \<Rightarrow> RegExpExecArray option \<times> nat" where
  "exec r s li =
     (case search r s li of
        None \<Rightarrow> (None, 0)
      | Some (i, e, c) \<Rightarrow> (Some \<lparr>index = i, groups = c(0 \<mapsto> substring s i e)\<rparr>, e))"

subsection \<open>Every match lies between the cursor and the end of the input\<close>

lemma greedy_bounds:
  assumes m: "\<And>i c j c'. i \<le> N \<Longrightarrow> (j, c') \<in> set (m i c) \<Longrightarrow> i \<le> j \<and> j \<le> N"
  shows "i \<le> N \<Longrightarrow> (j, c') \<in> set (greedy n m i c) \<Longrightarrow> i \<le> j \<and> j \<le> N"
proof (induction n arbitrary: i c)
  case 0
  then show ?case by simp
next
  case (Suc n)
  from Suc.prems(2) consider "(j, c') = (i, c)"
    | k d where "(k, d) \<in> set (m i c)" "i < k" "(j, c') \<in> set (greedy n m k d)"
    by (auto split: if_splits)
  then show ?case
  proof cases
    case 1
    with Suc.prems(1) show ?thesis by simp
  next
    case 2
    from m[OF Suc.prems(1) 2(1)] have "k \<le> N" by simp
    from Suc.IH[OF this 2(3)] 2(2) show ?thesis by simp
  qed
qed

lemma lazy_bounds:
  assumes m: "\<And>i c j c'. i \<le> N \<Longrightarrow> (j, c') \<in> set (m i c) \<Longrightarrow> i \<le> j \<and> j \<le> N"
  shows "i \<le> N \<Longrightarrow> (j, c') \<in> set (lazy n m i c) \<Longrightarrow> i \<le> j \<and> j \<le> N"
proof (induction n arbitrary: i c)
  case 0
  then show ?case by simp
next
  case (Suc n)
  from Suc.prems(2) consider "(j, c') = (i, c)"
    | k d where "(k, d) \<in> set (m i c)" "i < k" "(j, c') \<in> set (lazy n m k d)"
    by (auto split: if_splits)
  then show ?case
  proof cases
    case 1
    with Suc.prems(1) show ?thesis by simp
  next
    case 2
    from m[OF Suc.prems(1) 2(1)] have "k \<le> N" by simp
    from Suc.IH[OF this 2(3)] 2(2) show ?thesis by simp
  qed
qed

lemma rmatch_bounds:
  "i \<le> length s \<Longrightarrow> (j, c') \<in> set (rmatch r s i c) \<Longrightarrow> i \<le> j \<and> j \<le> length s"
proof (induction r arbitrary: i c j c')
  case (Seq a b)
  from Seq.prems(2) obtain k d where
    a: "(k, d) \<in> set (rmatch a s i c)" and b: "(j, c') \<in> set (rmatch b s k d)"
    by auto
  from Seq.IH(1)[OF Seq.prems(1) a] have k: "i \<le> k" "k \<le> length s" by simp_all
  from Seq.IH(2)[OF k(2) b] k(1) show ?case by simp
next
  case (Star r)
  show ?case
  proof (rule greedy_bounds[of "length s" "rmatch r s"])
    show "\<And>i c j c'. i \<le> length s \<Longrightarrow> (j, c') \<in> set (rmatch r s i c) \<Longrightarrow>
        i \<le> j \<and> j \<le> length s"
      by (rule Star.IH)
    show "i \<le> length s" by (rule Star.prems(1))
    from Star.prems(2) show "(j, c') \<in> set (greedy (length s - i) (rmatch r s) i c)"
      by simp
  qed
next
  case (Lazy r)
  show ?case
  proof (rule lazy_bounds[of "length s" "rmatch r s"])
    show "\<And>i c j c'. i \<le> length s \<Longrightarrow> (j, c') \<in> set (rmatch r s i c) \<Longrightarrow>
        i \<le> j \<and> j \<le> length s"
      by (rule Lazy.IH)
    show "i \<le> length s" by (rule Lazy.prems(1))
    from Lazy.prems(2) show "(j, c') \<in> set (lazy (length s - i) (rmatch r s) i c)"
      by simp
  qed
next
  case (Plus r)
  from Plus.prems(2) obtain k d where
    a: "(k, d) \<in> set (rmatch r s i c)"
    and b: "(j, c') \<in> set (greedy (length s - k) (rmatch r s) k d)"
    by auto
  from Plus.IH[OF Plus.prems(1) a] have k: "i \<le> k" "k \<le> length s" by simp_all
  have "k \<le> j \<and> j \<le> length s"
  proof (rule greedy_bounds[of "length s" "rmatch r s"])
    show "\<And>i c j c'. i \<le> length s \<Longrightarrow> (j, c') \<in> set (rmatch r s i c) \<Longrightarrow>
        i \<le> j \<and> j \<le> length s"
      by (rule Plus.IH)
    show "k \<le> length s" by (rule k(2))
    show "(j, c') \<in> set (greedy (length s - k) (rmatch r s) k d)" by (rule b)
  qed
  with k(1) show ?case by simp
next
  case (Grp n r)
  from Grp.prems(2) obtain d where "(j, d) \<in> set (rmatch r s i c)" by auto
  from Grp.IH[OF Grp.prems(1) this] show ?case .
qed (auto split: if_splits)

lemma search_bounds:
  "search r s li = Some (i, e, c) \<Longrightarrow> li \<le> i \<and> i \<le> e \<and> e \<le> length s"
proof (induction r s li rule: search.induct)
  case (1 r s li)
  show ?case
  proof (cases "rmatch r s li (\<lambda>_. None)")
    case Nil
    with "1.prems" have le: "\<not> length s < li" and rec: "search r s (Suc li) = Some (i, e, c)"
      by (auto simp: search.simps[of r s li] split: if_splits)
    from "1.IH"[OF le Nil rec] show ?thesis by simp
  next
    case (Cons p ps)
    with "1.prems" have le: "li \<le> length s" and p: "p = (e, c)" and i: "i = li"
      by (auto simp: search.simps[of r s li] split: if_splits prod.splits)
    from Cons p have "(e, c) \<in> set (rmatch r s li (\<lambda>_. None))" by simp
    from rmatch_bounds[OF le this] i show ?thesis by simp
  qed
qed

lemma exec_bounds:
  "exec r s li = (Some m, li') \<Longrightarrow> li \<le> index m \<and> index m \<le> li' \<and> li' \<le> length s"
  by (auto simp: exec_def split: option.splits dest: search_bounds)


section \<open>The scanning loop\<close>

text \<open>
  What the source can throw or receive as a failure: the two failures of the file loader,
  an \<^verbatim>\<open>Error\<close> with its message, and the \<^verbatim>\<open>TypeError\<close> of a method call on a value
  that is not a string.
\<close>

datatype error = NotFound | TransportError | Error string | TypeError

text \<open>
  The \<^verbatim>\<open>while\<close> loop of \<^verbatim>\<open>parse\<close>. \<open>li\<close> is \<^verbatim>\<open>rx.lastIndex\<close>, \<open>st\<close> is the state the
  callback \<open>fn\<close> changes; the callback may throw. After a match that consumed nothing
  (\<^verbatim>\<open>match.index == rx.lastIndex\<close>) the loop moves \<open>lastIndex\<close> one position on. The
  loop returns the final \<open>lastIndex\<close> together with the state.
\<close>

function parse_loop ::
  "rx \<Rightarrow> string \<Rightarrow> (RegExpExecArray \<Rightarrow> 'a \<Rightarrow> error + 'a) \<Rightarrow> nat \<Rightarrow> 'a \<Rightarrow> error + nat \<times> 'a" where
  "parse_loop r source fn li st =
     (case exec r source li of
        (None, li') \<Rightarrow> Inr (li', st)
      | (Some m, li') \<Rightarrow>
          (case fn m st of
             Inl e \<Rightarrow> Inl e
           | Inr st' \<Rightarrow> parse_loop r source fn (if index m = li' then li' + 1 else li') st'))"
  by pat_completeness auto
termination
proof (relation "measure (\<lambda>(r, source, fn, li, st). Suc (length source) - li)")
  show "wf (measure (\<lambda>(r, source, fn, li, st). Suc (length source) - li))"
    by simp
next
  fix r :: rx and source :: string and fn :: "RegExpExecArray \<Rightarrow> 'a \<Rightarrow> error + 'a"
    and li :: nat and st :: 'a and x li' m st'
  assume "(x, li') = exec r source li" and "x = Some m"
  then have "exec r source li = (Some m, li')"
    by simp
  from exec_bounds[OF this]
  show "((r, source, fn, if index m = li' then li' + 1 else li', st'), (r, source, fn, li, st))
      \<in> measure (\<lambda>(r, source, fn, li, st). Suc (length source) - li)"
    by auto
qed

declare parse_loop.simps [simp del]

text \<open>
  \<^verbatim>\<open>parse(rx, source, fn)\<close>: \<open>fn = None\<close> stands for an argument that is not a
  function, which the source rejects before it scans.
\<close>

definition parse ::
  "rx \<Rightarrow> string \<Rightarrow> (RegExpExecArray \<Rightarrow> 'a \<Rightarrow> error + 'a) option \<Rightarrow> nat \<Rightarrow> 'a \<Rightarrow> error + nat \<times> 'a" where
  "parse r source fn li st =
     (case fn of
        None \<Rightarrow> Inl (Error ''fn must be a function'')
      | Some f \<Rightarrow> parse_loop r source f li st)"

text \<open>
  The matches the loop hands to its callback, in the order of the calls: the same
  iteration, without the callback.
\<close>

function scan :: "rx \<Rightarrow> string \<Rightarrow> nat \<Rightarrow> RegExpExecArray list" where
  "scan r source li =
     (case exec r source li of
        (None, li') \<Rightarrow> []
      | (Some m, li') \<Rightarrow> m # scan r source (if index m = li' then li' + 1 else li'))"
  by pat_completeness auto
termination
proof (relation "measure (\<lambda>(r, source, li). Suc (length source) - li)")
  show "wf (measure (\<lambda>(r, source, li). Suc (length source) - li))"
    by simp
next
  fix r :: rx and source :: string and li :: nat and x li' m
  assume "(x, li') = exec r source li" and "x = Some m"
  then have "exec r source li = (Some m, li')"
    by simp
  from exec_bounds[OF this]
  show "((r, source, if index m = li' then li' + 1 else li'), (r, source, li))
      \<in> measure (\<lambda>(r, source, li). Suc (length source) - li)"
    by auto
qed

declare scan.simps [simp del]

section \<open>StaticResolver\<close>

subsection \<open>resolvePath\<close>

text \<open>
  \<^verbatim>\<open>ParamMap\<close> of the router: the parameter names in the order of the route, and
  \<^verbatim>\<open>get\<close>, which gives a value or \<^verbatim>\<open>null\<close> (\<open>None\<close>).
\<close>

record ParamMap =
  keys :: "string list"
  get :: "string \<Rightarrow> string option"

text \<open>The pattern \<^verbatim>\<open>/^path\d*$/\<close>.\<close>

definition path_key :: rx where
  "path_key = seqs [Bol, lit ''path'', Star (Cls [Digit]), Eol]"

text \<open>
  \<^verbatim>\<open>!!key.match(rx)\<close> for a pattern without the \<^verbatim>\<open>g\<close> flag: whether the pattern
  matches somewhere, searching from the start.
\<close>

definition matches :: "rx \<Rightarrow> string \<Rightarrow> bool" where
  "matches r s = (search r s 0 \<noteq> None)"

text \<open>
  The keys the pattern is meant to accept, said without the pattern: the word
  \<^verbatim>\<open>path\<close>, then digits only.
\<close>

definition is_path_key :: "string \<Rightarrow> bool" where
  "is_path_key k = (take 4 k = ''path'' \<and> list_all is_digit (drop 4 k))"

text \<open>
  \<^verbatim>\<open>Array.prototype.join\<close>: an element that is \<^verbatim>\<open>null\<close> or \<^verbatim>\<open>undefined\<close> is joined
  as the empty string.
\<close>

definition element :: "string option \<Rightarrow> string" where
  "element x = (case x of None \<Rightarrow> [] | Some v \<Rightarrow> v)"

fun join :: "string \<Rightarrow> string option list \<Rightarrow> string" where
  "join sep [] = []"
| "join sep [x] = element x"
| "join sep (x # y # ys) = element x @ sep @ join sep (y # ys)"

text \<open>
  \<^verbatim>\<open>params && params.keys.filter(...).map(...).join('/')\<close>: a \<^verbatim>\<open>params\<close> that is
  \<^verbatim>\<open>null\<close> or \<^verbatim>\<open>undefined\<close> (\<open>None\<close>) is returned as it is, not a string.
\<close>

definition resolvePath :: "ParamMap option \<Rightarrow> string option" where
  "resolvePath params =
     (case params of
        None \<Rightarrow> None
      | Some p \<Rightarrow> Some (join ''/'' (map (get p) (filter (matches path_key) (keys p)))))"

subsection \<open>parseComments\<close>

text \<open>The patterns \<^verbatim>\<open>/<!--([\s\S]*?)-->/g\<close> and \<^verbatim>\<open>/\s*(\w+):\s*([\w-_.]*)\s*/g\<close>.
  In the class \<^verbatim>\<open>[\w-_.]\<close> the hyphen follows a class escape, so it stands for itself.\<close>

definition comments :: rx where
  "comments = seqs [lit ''<!--'', Grp 1 (Lazy (Cls [Space, NonSpace])), lit ''-->'']"

definition pairs :: rx where
  "pairs =
     seqs [Star (Cls [Space]), Grp 1 (Plus (Cls [Word])), Chr CHR '':'', Star (Cls [Space]),
           Grp 2 (Star (Cls [Word, Ch CHR ''-'', Ch CHR ''_'', Ch CHR ''.''])),
           Star (Cls [Space])]"

text \<open>
  \<^verbatim>\<open>match[n]\<close> where a string is needed. A group that took no part in the match is
  \<^verbatim>\<open>undefined\<close>, which as a property key or as the argument of \<^verbatim>\<open>exec\<close> is the string
  \<^verbatim>\<open>"undefined"\<close>. In both patterns above every group takes part in every match
  (\<open>comments_group\<close> and \<open>pairs_groups\<close> below), so this case does not arise.
\<close>

definition capture :: "RegExpExecArray \<Rightarrow> nat \<Rightarrow> string" where
  "capture m n = (case groups m n of None \<Rightarrow> ''undefined'' | Some t \<Rightarrow> t)"

text \<open>
  \<^verbatim>\<open>out[key] = value\<close> on the object literal \<^verbatim>\<open>{}\<close>, whose prototype is
  \<^verbatim>\<open>Object.prototype\<close>. Every key becomes an own property of \<open>out\<close> but
  \<^verbatim>\<open>__proto__\<close>: that name is an accessor of the prototype, and its setter ignores a
  value that is not an object, so the assignment of a string leaves \<open>out\<close> as it was.
\<close>

definition assign :: "(string \<rightharpoonup> string) \<Rightarrow> string \<Rightarrow> string \<Rightarrow> (string \<rightharpoonup> string)" where
  "assign out k v = (if k = ''__proto__'' then out else out(k \<mapsto> v))"

text \<open>
  \<open>source\<close> is untyped in the code: \<open>None\<close> is \<^verbatim>\<open>undefined\<close> or \<^verbatim>\<open>null\<close>. The state of
  the outer scan is \<^verbatim>\<open>pairs.lastIndex\<close> and \<open>out\<close>: the pattern \<open>pairs\<close> is one object,
  used again for every comment.
\<close>

definition parseComments :: "string option \<Rightarrow> error + (string \<rightharpoonup> string)" where
  "parseComments source =
     (case source of
        None \<Rightarrow> Inr Map.empty
      | Some src \<Rightarrow>
          if src = [] then Inr Map.empty
          else
            (case parse comments src
                    (Some (\<lambda>comment (pli, out).
                       parse pairs (capture comment 1)
                         (Some (\<lambda>pair out. Inr (assign out (capture pair 1) (capture pair 2))))
                         pli out))
                    0 (0, Map.empty) of
               Inl e \<Rightarrow> Inl e
             | Inr (cli, pli, out) \<Rightarrow> Inr out))"

text \<open>
  The pairs of a source as the specification lists them: the comments in document
  order, and in each comment its pairs in their order of appearance.
\<close>

definition pairs_in :: "string \<Rightarrow> (string \<times> string) list" where
  "pairs_in text = map (\<lambda>pair. (capture pair 1, capture pair 2)) (scan pairs text 0)"

definition metadata_pairs :: "string \<Rightarrow> (string \<times> string) list" where
  "metadata_pairs source =
     concat (map (\<lambda>comment. pairs_in (capture comment 1)) (scan comments source 0))"

subsection \<open>resolve\<close>

text \<open>
  The route: \<^verbatim>\<open>route.data.source\<close> (\<open>None\<close> when the route data has no source) and
  \<^verbatim>\<open>route.paramMap\<close>, which the router always provides.
\<close>

record ActivatedRouteSnapshot =
  data_source :: "string option"
  paramMap :: ParamMap

text \<open>
  The collaborators injected into the resolver: the language selector and the file
  loader, whose observable gives the text of the file or fails.
\<close>

record collaborators =
  selector_resolve :: "ActivatedRouteSnapshot \<Rightarrow> string"
  loadFile :: "string \<Rightarrow> string \<Rightarrow> string \<Rightarrow> error + string"

text \<open>
  \<^verbatim>\<open>StaticCache\<close>: the language and any further string entries. The state of the
  resolver is its cache (\<open>None\<close> before the first request) and, for the claims about the
  order of effects, the log of what it did: the assignments \<^verbatim>\<open>this.cache = { lang }\<close>
  (with the language), the calls of the loader and the calls of \<^verbatim>\<open>router.navigate\<close>.
\<close>

record StaticCache =
  lang :: string
  entries :: "string \<rightharpoonup> string"

datatype event = ResetCache string | LoadFile string string string | Navigate "string list"

record StaticResolver =
  cache :: "StaticCache option"
  trace :: "event list"

text \<open>
  \<^verbatim>\<open>StaticContent\<close>: the object \<open>resolve\<close> emits, as the map from its property names
  to their values.
\<close>

type_synonym StaticContent = "string \<rightharpoonup> string"

text \<open>\<^verbatim>\<open>route.data.source || 'assets/docs'\<close>: the empty string is falsy too.\<close>

definition root_of :: "ActivatedRouteSnapshot \<Rightarrow> string" where
  "root_of route =
     (case data_source route of
        None \<Rightarrow> ''assets/docs''
      | Some src \<Rightarrow> if src = [] then ''assets/docs'' else src)"

text \<open>\<^verbatim>\<open>if(lang !== this.cache?.lang) { this.cache = { lang }; }\<close>\<close>

definition reset_cache :: "string \<Rightarrow> StaticResolver \<Rightarrow> StaticResolver" where
  "reset_cache l s =
     (if (case cache s of None \<Rightarrow> True | Some c \<Rightarrow> l \<noteq> lang c)
      then s\<lparr>cache := Some \<lparr>lang = l, entries = Map.empty\<rparr>,
              trace := trace s @ [ResetCache l]\<rparr>
      else s)"

text \<open>
  \<^verbatim>\<open>str.replace(rx, '')\<close> for a pattern without the \<^verbatim>\<open>g\<close> flag: the first match is
  cut out. The file to load is \<^verbatim>\<open>path.replace(/\.\w+$/, '') + '.md'\<close>.
\<close>

definition extension :: rx where
  "extension = seqs [Chr CHR ''.'', Plus (Cls [Word]), Eol]"

definition remove_first :: "rx \<Rightarrow> string \<Rightarrow> string" where
  "remove_first r s = (case search r s 0 of None \<Rightarrow> s | Some (i, e, c) \<Rightarrow> take i s @ drop e s)"

definition md_file :: "string \<Rightarrow> string" where
  "md_file path = remove_first extension path @ ''.md''"

text \<open>A call of the loader, logged.\<close>

definition load ::
  "collaborators \<Rightarrow> string \<Rightarrow> string \<Rightarrow> string \<Rightarrow> StaticResolver \<Rightarrow> (error + string) \<times> StaticResolver" where
  "load cs root l file s = (loadFile cs root l file, s\<lparr>trace := trace s @ [LoadFile root l file]\<rparr>)"

text \<open>The handler of \<^verbatim>\<open>catchError\<close>: navigate to the not-found page, emit \<^verbatim>\<open>{ body: '' }\<close>.\<close>

definition not_found :: "error \<Rightarrow> StaticResolver \<Rightarrow> StaticContent \<times> StaticResolver" where
  "not_found e s = ([''body'' \<mapsto> []], s\<lparr>trace := trace s @ [Navigate [''/not-found'']]\<rparr>)"

text \<open>
  The callback of \<^verbatim>\<open>switchMap\<close>, with the inner observable run to its end. An object
  literal defines its properties from left to right, so the spread of \<open>options\<close>
  overrides \<open>body\<close> and \<open>path\<close>, and the loaded \<open>toc\<close> overrides the spread.
  \<^verbatim>\<open>!options.toc\<close> holds when there is no such property and when it is the empty string.
\<close>

definition with_options ::
  "collaborators \<Rightarrow> string \<Rightarrow> string \<Rightarrow> string \<Rightarrow> string \<Rightarrow> StaticResolver \<Rightarrow>
     (error + StaticContent) \<times> StaticResolver" where
  "with_options cs root l path body s =
     (case parseComments (Some body) of
        Inl e \<Rightarrow> (Inl e, s)
      | Inr options \<Rightarrow>
          (case options ''toc'' of
             None \<Rightarrow> (Inr ([''body'' \<mapsto> body, ''path'' \<mapsto> path] ++ options), s)
           | Some t \<Rightarrow>
               if t = [] then (Inr ([''body'' \<mapsto> body, ''path'' \<mapsto> path] ++ options), s)
               else
                 (case load cs root l t s of
                    (Inl e, s') \<Rightarrow> (Inl e, s')
                  | (Inr toc, s') \<Rightarrow>
                      (Inr (([''body'' \<mapsto> body, ''path'' \<mapsto> path] ++ options)(''toc'' \<mapsto> toc)),
                       s'))))"

text \<open>
  \<open>resolve\<close>, with the observable it returns subscribed to and run to its end: the value
  it emits and the resolver afterwards. \<open>Inl\<close> is an exception thrown to the caller;
  the only statement of \<open>resolve\<close> outside the observable that can throw is
  \<^verbatim>\<open>path.replace\<close>, when \<open>resolvePath\<close> did not return a string; the cache has been
  reset by then. An error of the loader
  or an exception in the callback of \<^verbatim>\<open>switchMap\<close> goes to \<^verbatim>\<open>catchError\<close>. The two
  messages to the console are left out.
\<close>

definition resolve ::
  "collaborators \<Rightarrow> ActivatedRouteSnapshot \<Rightarrow> StaticResolver \<Rightarrow>
     (error + StaticContent) \<times> StaticResolver" where
  "resolve cs route s =
     (let root = root_of route;
          l = selector_resolve cs route
      in case resolvePath (Some (paramMap route)) of
           None \<Rightarrow> (Inl TypeError, reset_cache l s)
         | Some path \<Rightarrow>
             (case load cs root l (md_file path) (reset_cache l s) of
                (Inl e, s1) \<Rightarrow> (case not_found e s1 of (r, s2) \<Rightarrow> (Inr r, s2))
              | (Inr body, s1) \<Rightarrow>
                  (case with_options cs root l path body s1 of
                     (Inl e, s2) \<Rightarrow> (case not_found e s2 of (r, s3) \<Rightarrow> (Inr r, s3))
                   | (Inr r, s2) \<Rightarrow> (Inr r, s2))))"

text \<open>What the log says about each collaborator.\<close>

fun loads :: "event list \<Rightarrow> (string \<times> string \<times> string) list" where
  "loads [] = []"
| "loads (LoadFile root l file # evs) = (root, l, file) # loads evs"
| "loads (ev # evs) = loads evs"

fun navigations :: "event list \<Rightarrow> string list list" where
  "navigations [] = []"
| "navigations (Navigate commands # evs) = commands # navigations evs"
| "navigations (ev # evs) = navigations evs"

fun resets :: "event list \<Rightarrow> string list" where
  "resets [] = []"
| "resets (ResetCache l # evs) = l # resets evs"
| "resets (ev # evs) = resets evs"

text \<open>
  Collaborators for the examples: a loader that serves the listed files, whatever the
  root and the language, and fails with \<open>NotFound\<close> on any other file; a selector that
  answers one language.
\<close>

definition serving :: "(string \<times> string) list \<Rightarrow> string \<Rightarrow> string \<Rightarrow> string \<Rightarrow> error + string" where
  "serving files root l file = (case map_of files file of None \<Rightarrow> Inl NotFound | Some text \<Rightarrow> Inr text)"

definition always :: "string \<Rightarrow> ActivatedRouteSnapshot \<Rightarrow> string" where
  "always l route = l"

section \<open>Facts about the model\<close>

subsection \<open>What the patterns match\<close>

lemma seqs_Nil: "seqs [] = Eps"
  by (simp add: seqs_def)

lemma seqs_Cons: "seqs (r # rs) = Seq r (seqs rs)"
  by (simp add: seqs_def)

lemma lit_Nil: "lit [] = Eps"
  by (simp add: lit_def seqs_def)

lemma lit_Cons: "lit (x # w) = Seq (Chr x) (lit w)"
  by (simp add: lit_def seqs_def)

lemma in_rmatch_Seq:
  "(j, c') \<in> set (rmatch (Seq a b) s i c) \<longleftrightarrow>
     (\<exists>k d. (k, d) \<in> set (rmatch a s i c) \<and> (j, c') \<in> set (rmatch b s k d))"
  by auto

lemma in_rmatch_lit:
  "(j, c') \<in> set (rmatch (lit w) s i c) \<longleftrightarrow> c' = c \<and> j = i + length w \<and> prefix w (drop i s)"
proof (induction w arbitrary: i)
  case Nil
  show ?case by (auto simp: lit_Nil)
next
  case (Cons x w)
  have "prefix (x # w) (drop i s) \<longleftrightarrow> i < length s \<and> s ! i = x \<and> prefix w (drop (Suc i) s)"
  proof (cases "i < length s")
    case True
    then have "drop i s = s ! i # drop (Suc i) s"
      by (simp add: Cons_nth_drop_Suc)
    then show ?thesis using True by auto
  next
    case False
    then show ?thesis by simp
  qed
  then show ?case
    by (auto simp: lit_Cons Cons.IH)
qed

lemma in_greedy_Cls:
  "(j, c') \<in> set (greedy n (rmatch (Cls ms) s) i c) \<longleftrightarrow>
     c' = c \<and> i \<le> j \<and> j \<le> i + n \<and>
     (\<forall>k. i \<le> k \<and> k < j \<longrightarrow> k < length s \<and> list_ex (\<lambda>m. cls_mem m (s ! k)) ms)"
proof (induction n arbitrary: i)
  case 0
  show ?case by auto
next
  case (Suc n)
  let ?P = "\<lambda>k. k < length s \<and> list_ex (\<lambda>m. cls_mem m (s ! k)) ms"
  have step: "(j, c') \<in> set (greedy (Suc n) (rmatch (Cls ms) s) i c) \<longleftrightarrow>
      (j = i \<and> c' = c) \<or> (?P i \<and> (j, c') \<in> set (greedy n (rmatch (Cls ms) s) (Suc i) c))"
    by auto
  have split: "(\<forall>k. i \<le> k \<and> k < j \<longrightarrow> ?P k) \<longleftrightarrow> (i < j \<longrightarrow> ?P i) \<and> (\<forall>k. Suc i \<le> k \<and> k < j \<longrightarrow> ?P k)"
  proof
    assume "\<forall>k. i \<le> k \<and> k < j \<longrightarrow> ?P k"
    then show "(i < j \<longrightarrow> ?P i) \<and> (\<forall>k. Suc i \<le> k \<and> k < j \<longrightarrow> ?P k)"
      by (simp add: Suc_le_eq)
  next
    assume a: "(i < j \<longrightarrow> ?P i) \<and> (\<forall>k. Suc i \<le> k \<and> k < j \<longrightarrow> ?P k)"
    show "\<forall>k. i \<le> k \<and> k < j \<longrightarrow> ?P k"
    proof (intro allI impI)
      fix k
      assume k: "i \<le> k \<and> k < j"
      show "?P k"
      proof (cases "k = i")
        case True
        with a k show ?thesis by simp
      next
        case False
        with k have "Suc i \<le> k \<and> k < j" by simp
        with a show ?thesis by blast
      qed
    qed
  qed
  show ?case
    unfolding step Suc.IH split by auto
qed

lemma search_None_iff:
  "search r s i = None \<longleftrightarrow> (\<forall>j. i \<le> j \<and> j \<le> length s \<longrightarrow> rmatch r s j (\<lambda>_. None) = [])"
proof (induction r s i rule: search.induct)
  case (1 r s i)
  show ?case
  proof (cases "length s < i")
    case True
    then show ?thesis by (auto simp: search.simps[of r s i])
  next
    case False
    show ?thesis
    proof (cases "rmatch r s i (\<lambda>_. None)")
      case Nil
      have "(\<forall>j. i \<le> j \<and> j \<le> length s \<longrightarrow> rmatch r s j (\<lambda>_. None) = []) \<longleftrightarrow>
          (\<forall>j. Suc i \<le> j \<and> j \<le> length s \<longrightarrow> rmatch r s j (\<lambda>_. None) = [])"
      proof (intro iffI allI impI)
        fix j
        assume a: "\<forall>j. Suc i \<le> j \<and> j \<le> length s \<longrightarrow> rmatch r s j (\<lambda>_. None) = []"
          and j: "i \<le> j \<and> j \<le> length s"
        show "rmatch r s j (\<lambda>_. None) = []"
        proof (cases "j = i")
          case True
          with Nil show ?thesis by simp
        next
          case False
          with j have "Suc i \<le> j \<and> j \<le> length s" by simp
          with a show ?thesis by blast
        qed
      qed auto
      with "1.IH"[OF False Nil] False Nil show ?thesis
        by (simp add: search.simps[of r s i])
    next
      case (Cons p ps)
      with False show ?thesis
        by (auto simp: search.simps[of r s i] split: prod.splits)
    qed
  qed
qed

lemma matches_path_key: "matches path_key k = is_path_key k"
proof -
  let ?c = "\<lambda>_::nat. None :: string option"
  have at: "rmatch path_key k j ?c \<noteq> [] \<longleftrightarrow> j = 0 \<and> is_path_key k" for j
  proof -
    have "rmatch path_key k j ?c \<noteq> [] \<longleftrightarrow> (\<exists>e c'. (e, c') \<in> set (rmatch path_key k j ?c))"
      by (cases "rmatch path_key k j ?c") auto
    also have "\<dots> \<longleftrightarrow> j = 0 \<and> prefix ''path'' k \<and>
        (\<forall>n. 4 \<le> n \<and> n < length k \<longrightarrow> is_digit (k ! n))"
      unfolding path_key_def seqs_Cons seqs_Nil in_rmatch_Seq in_rmatch_lit rmatch.simps(7)
        in_greedy_Cls
      by (auto split: if_splits dest: prefix_length_le)
    also have "\<dots> \<longleftrightarrow> j = 0 \<and> is_path_key k"
    proof -
      have p: "prefix ''path'' k \<longleftrightarrow> take 4 k = ''path''"
      proof
        assume "prefix ''path'' k"
        then obtain zs where "k = ''path'' @ zs" by (auto simp: prefix_def)
        then show "take 4 k = ''path''" by simp
      next
        assume "take 4 k = ''path''"
        with take_is_prefix[of 4 k] show "prefix ''path'' k" by simp
      qed
      have d: "list_all is_digit (drop 4 k) \<longleftrightarrow> (\<forall>n. 4 \<le> n \<and> n < length k \<longrightarrow> is_digit (k ! n))"
      proof
        assume a: "list_all is_digit (drop 4 k)"
        show "\<forall>n. 4 \<le> n \<and> n < length k \<longrightarrow> is_digit (k ! n)"
        proof (intro allI impI)
          fix n
          assume n: "4 \<le> n \<and> n < length k"
          then have "n - 4 < length (drop 4 k)" by (simp add: less_diff_conv2)
          with a have "is_digit (drop 4 k ! (n - 4))" by (simp add: list_all_length)
          with n show "is_digit (k ! n)" by simp
        qed
      next
        assume a: "\<forall>n. 4 \<le> n \<and> n < length k \<longrightarrow> is_digit (k ! n)"
        show "list_all is_digit (drop 4 k)"
          unfolding list_all_length
        proof (intro allI impI)
          fix n
          assume "n < length (drop 4 k)"
          then have n: "4 \<le> 4 + n \<and> 4 + n < length k" by (simp add: less_diff_conv)
          with a have "is_digit (k ! (4 + n))" by blast
          with n show "is_digit (drop 4 k ! n)" by simp
        qed
      qed
      show ?thesis by (simp add: is_path_key_def p d)
    qed
    finally show ?thesis .
  qed
  have "matches path_key k \<longleftrightarrow> (\<exists>j. j \<le> length k \<and> rmatch path_key k j ?c \<noteq> [])"
    by (simp add: matches_def search_None_iff)
  also have "\<dots> \<longleftrightarrow> is_path_key k"
    unfolding at by auto
  finally show ?thesis .
qed


subsection \<open>The log, and scans that cannot fail\<close>

lemma loads_append: "loads (xs @ ys) = loads xs @ loads ys"
  by (induction xs rule: loads.induct) simp_all

lemma navigations_append: "navigations (xs @ ys) = navigations xs @ navigations ys"
  by (induction xs rule: navigations.induct) simp_all

lemma resets_append: "resets (xs @ ys) = resets xs @ resets ys"
  by (induction xs rule: resets.induct) simp_all

lemma resolvePath_Some:
  "resolvePath (Some p) = Some (join ''/'' (map (get p) (filter (matches path_key) (keys p))))"
  by (simp add: resolvePath_def)

lemma parse_loop_returns:
  "(\<forall>m st. \<exists>st'. fn m st = Inr st') \<Longrightarrow> \<exists>st'. parse_loop r source fn li st = Inr (0, st')"
proof (induction r source fn li st rule: parse_loop.induct)
  case (1 r source fn li st)
  show ?case
  proof (cases "exec r source li")
    case (Pair x li')
    show ?thesis
    proof (cases x)
      case None
      with Pair have "li' = 0"
        by (auto simp: exec_def split: option.splits)
      with Pair None show ?thesis
        by (simp add: parse_loop.simps[of r source fn li st])
    next
      case (Some m)
      from "1.prems" obtain st' where st': "fn m st = Inr st'"
        by blast
      from "1.IH"[OF Pair[symmetric] Some st' "1.prems"] Pair Some st' show ?thesis
        by (simp add: parse_loop.simps[of r source fn li st])
    qed
  qed
qed

lemma parse_returns:
  "(\<forall>m st. \<exists>st'. fn m st = Inr st') \<Longrightarrow> \<exists>st'. parse r source (Some fn) li st = Inr (0, st')"
  by (simp add: parse_def parse_loop_returns)

lemma parseComments_returns: "\<exists>out. parseComments source = Inr out"
proof (cases source)
  case None
  then show ?thesis by (simp add: parseComments_def)
next
  case (Some src)
  let ?inner = "\<lambda>pair out. Inr (assign out (capture pair 1) (capture pair 2)) :: error + (string \<rightharpoonup> string)"
  let ?outer = "\<lambda>comment (pli, out). parse pairs (capture comment 1) (Some ?inner) pli out"
  have inner: "\<forall>m st. \<exists>st'. ?inner m st = Inr st'"
    by simp
  have outer: "\<forall>m st. \<exists>st'. ?outer m st = Inr st'"
  proof (intro allI)
    fix m :: RegExpExecArray and st :: "nat \<times> (string \<rightharpoonup> string)"
    obtain pli out where st: "st = (pli, out)"
      by (cases st)
    from parse_returns[OF inner, of pairs "capture m 1" pli out]
    show "\<exists>st'. ?outer m st = Inr st'"
      by (auto simp: st)
  qed
  from parse_returns[OF outer, of comments src 0 "(0, Map.empty)"]
  obtain st' where "parse comments src (Some ?outer) 0 (0, Map.empty) = Inr (0, st')"
    by blast
  then show ?thesis
    by (cases st') (simp add: parseComments_def Some)
qed


lemma parse_loop_count:
  "\<exists>k. parse_loop r source (\<lambda>m n. Inr (Suc n)) li n0 = Inr (0, n0 + k)
       \<and> k \<le> Suc (length source) - li"
proof (induction r source "\<lambda>(m::RegExpExecArray) (n::nat). Inr (Suc n) :: error + nat" li n0
    rule: parse_loop.induct)
  case (1 r source li n0)
  let ?fn = "\<lambda>(m::RegExpExecArray) (n::nat). Inr (Suc n) :: error + nat"
  show ?case
  proof (cases "exec r source li")
    case (Pair x li')
    show ?thesis
    proof (cases x)
      case None
      with Pair have "li' = 0"
        by (auto simp: exec_def split: option.splits)
      with Pair None show ?thesis
        by (simp add: parse_loop.simps[of r source ?fn li n0])
    next
      case (Some m)
      let ?next = "if index m = li' then li' + 1 else li'"
      from Pair Some have e: "exec r source li = (Some m, li')"
        by simp
      from exec_bounds[OF e] have adv: "li < ?next" "li \<le> length source"
        by auto
      from "1.hyps"[OF Pair[symmetric] Some, of "Suc n0"]
      obtain k where k: "parse_loop r source ?fn ?next (Suc n0) = Inr (0, Suc n0 + k)"
        "k \<le> Suc (length source) - ?next"
        by auto
      from k(2) adv have "Suc k \<le> Suc (length source) - li"
        by linarith
      with k(1) e show ?thesis
        by (intro exI[of _ "Suc k"]) (simp add: parse_loop.simps[of r source ?fn li n0])
    qed
  qed
qed

subsection \<open>Text without a comment\<close>

lemma search_Some_mem:
  "search r s li = Some (i, e, c) \<Longrightarrow> (e, c) \<in> set (rmatch r s i (\<lambda>_. None))"
proof (induction r s li rule: search.induct)
  case (1 r s li)
  show ?case
  proof (cases "rmatch r s li (\<lambda>_. None)")
    case Nil
    with "1.prems" have le: "\<not> length s < li" and rec: "search r s (Suc li) = Some (i, e, c)"
      by (auto simp: search.simps[of r s li] split: if_splits)
    from "1.IH"[OF le Nil rec] show ?thesis .
  next
    case (Cons p ps)
    with "1.prems" have "p = (e, c)" and "i = li"
      by (auto simp: search.simps[of r s li] split: if_splits prod.splits)
    with Cons show ?thesis by simp
  qed
qed

lemma comments_needs_delimiters:
  assumes "(e, c') \<in> set (rmatch comments s i c)"
  shows "sublist ''<!--'' s \<and> sublist ''-->'' s"
proof -
  from assms obtain k where "prefix ''<!--'' (drop i s)" "prefix ''-->'' (drop k s)"
    unfolding comments_def seqs_Cons seqs_Nil in_rmatch_Seq in_rmatch_lit
    by blast
  moreover have "prefix w (drop n s) \<Longrightarrow> sublist w s" for w n
    using sublist_altdef' suffix_drop by blast
  ultimately show ?thesis
    by blast
qed

lemma search_comments_None:
  assumes "\<not> sublist ''<!--'' s \<or> \<not> sublist ''-->'' s"
  shows "search comments s li = None"
proof (cases "search comments s li")
  case None
  then show ?thesis .
next
  case (Some m)
  obtain i e c where "m = (i, e, c)"
    by (cases m)
  with Some search_Some_mem have "(e, c) \<in> set (rmatch comments s i (\<lambda>_. None))"
    by blast
  with comments_needs_delimiters assms show ?thesis
    by blast
qed

lemma parseComments_without_comment:
  assumes "\<not> sublist ''<!--'' src \<or> \<not> sublist ''-->'' src"
  shows "parseComments (Some src) = Inr Map.empty"
  using search_comments_None[OF assms, of 0]
  by (simp add: parseComments_def parse_def parse_loop.simps exec_def)

subsection \<open>The bound on the iterations of a quantifier cuts nothing off\<close>

lemma greedy_range:
  assumes m: "\<And>i c j c'. (j, c') \<in> set (m i c) \<Longrightarrow> i \<le> j \<and> j \<le> max i N"
  shows "(j, c') \<in> set (greedy n m i c) \<Longrightarrow> i \<le> j \<and> j \<le> max i N"
proof (induction n arbitrary: i c)
  case 0
  then show ?case by simp
next
  case (Suc n)
  from Suc.prems consider "(j, c') = (i, c)"
    | k d where "(k, d) \<in> set (m i c)" "i < k" "(j, c') \<in> set (greedy n m k d)"
    by (auto split: if_splits)
  then show ?case
  proof cases
    case 1
    then show ?thesis by simp
  next
    case 2
    from m[OF 2(1)] Suc.IH[OF 2(3)] show ?thesis by auto
  qed
qed

lemma lazy_range:
  assumes m: "\<And>i c j c'. (j, c') \<in> set (m i c) \<Longrightarrow> i \<le> j \<and> j \<le> max i N"
  shows "(j, c') \<in> set (lazy n m i c) \<Longrightarrow> i \<le> j \<and> j \<le> max i N"
proof (induction n arbitrary: i c)
  case 0
  then show ?case by simp
next
  case (Suc n)
  from Suc.prems consider "(j, c') = (i, c)"
    | k d where "(k, d) \<in> set (m i c)" "i < k" "(j, c') \<in> set (lazy n m k d)"
    by (auto split: if_splits)
  then show ?case
  proof cases
    case 1
    then show ?thesis by simp
  next
    case 2
    from m[OF 2(1)] Suc.IH[OF 2(3)] show ?thesis by auto
  qed
qed

lemma rmatch_range:
  "(j, c') \<in> set (rmatch r s i c) \<Longrightarrow> i \<le> j \<and> j \<le> max i (length s)"
proof (induction r arbitrary: i c j c')
  case (Seq a b)
  from Seq.prems obtain k d where
    a: "(k, d) \<in> set (rmatch a s i c)" and b: "(j, c') \<in> set (rmatch b s k d)"
    by auto
  from Seq.IH(1)[OF a] Seq.IH(2)[OF b] show ?case by auto
next
  case (Star r)
  show ?case
  proof (rule greedy_range[of "rmatch r s" "length s"])
    show "\<And>i c j c'. (j, c') \<in> set (rmatch r s i c) \<Longrightarrow> i \<le> j \<and> j \<le> max i (length s)"
      by (rule Star.IH)
    from Star.prems show "(j, c') \<in> set (greedy (length s - i) (rmatch r s) i c)"
      by simp
  qed
next
  case (Lazy r)
  show ?case
  proof (rule lazy_range[of "rmatch r s" "length s"])
    show "\<And>i c j c'. (j, c') \<in> set (rmatch r s i c) \<Longrightarrow> i \<le> j \<and> j \<le> max i (length s)"
      by (rule Lazy.IH)
    from Lazy.prems show "(j, c') \<in> set (lazy (length s - i) (rmatch r s) i c)"
      by simp
  qed
next
  case (Plus r)
  from Plus.prems obtain k d where
    a: "(k, d) \<in> set (rmatch r s i c)"
    and b: "(j, c') \<in> set (greedy (length s - k) (rmatch r s) k d)"
    by auto
  have "k \<le> j \<and> j \<le> max k (length s)"
  proof (rule greedy_range[of "rmatch r s" "length s"])
    show "\<And>i c j c'. (j, c') \<in> set (rmatch r s i c) \<Longrightarrow> i \<le> j \<and> j \<le> max i (length s)"
      by (rule Plus.IH)
    show "(j, c') \<in> set (greedy (length s - k) (rmatch r s) k d)" by (rule b)
  qed
  with Plus.IH[OF a] show ?case by auto
next
  case (Grp n r)
  from Grp.prems obtain d where "(j, d) \<in> set (rmatch r s i c)" by auto
  from Grp.IH[OF this] show ?case .
qed (auto split: if_splits)

lemma greedy_spare:
  assumes m: "\<And>i c j c'. (j, c') \<in> set (m i c) \<Longrightarrow> i \<le> j \<and> j \<le> max i N"
  shows "N - i \<le> n \<Longrightarrow> greedy (Suc n) m i c = greedy n m i c"
proof (induction n arbitrary: i c)
  case 0
  have "(case x of (j, c') \<Rightarrow> if i < j then greedy 0 m j c' else []) = []" if "x \<in> set (m i c)" for x
    using m[of "fst x" "snd x" i c] that 0 by (cases x) auto
  then have "map (\<lambda>(j, c'). if i < j then greedy 0 m j c' else []) (m i c) = map (\<lambda>x. []) (m i c)"
    by (intro map_cong) auto
  then show ?case
    by simp
next
  case (Suc n)
  have "(case x of (j, c') \<Rightarrow> if i < j then greedy (Suc n) m j c' else []) =
      (case x of (j, c') \<Rightarrow> if i < j then greedy n m j c' else [])" if "x \<in> set (m i c)" for x
  proof (cases x)
    case (Pair j c')
    show ?thesis
    proof (cases "i < j")
      case True
      with Suc.prems have "N - j \<le> n" by simp
      from Suc.IH[OF this] True Pair show ?thesis by simp
    next
      case False
      with Pair show ?thesis by simp
    qed
  qed
  then have "map (\<lambda>(j, c'). if i < j then greedy (Suc n) m j c' else []) (m i c) =
      map (\<lambda>(j, c'). if i < j then greedy n m j c' else []) (m i c)"
    by (intro map_cong) auto
  then show ?case
    by (simp only: greedy.simps(2)[of "Suc n" m i c] greedy.simps(2)[of n m i c])
qed

lemma lazy_spare:
  assumes m: "\<And>i c j c'. (j, c') \<in> set (m i c) \<Longrightarrow> i \<le> j \<and> j \<le> max i N"
  shows "N - i \<le> n \<Longrightarrow> lazy (Suc n) m i c = lazy n m i c"
proof (induction n arbitrary: i c)
  case 0
  have "(case x of (j, c') \<Rightarrow> if i < j then lazy 0 m j c' else []) = []" if "x \<in> set (m i c)" for x
    using m[of "fst x" "snd x" i c] that 0 by (cases x) auto
  then have "map (\<lambda>(j, c'). if i < j then lazy 0 m j c' else []) (m i c) = map (\<lambda>x. []) (m i c)"
    by (intro map_cong) auto
  then show ?case
    by simp
next
  case (Suc n)
  have "(case x of (j, c') \<Rightarrow> if i < j then lazy (Suc n) m j c' else []) =
      (case x of (j, c') \<Rightarrow> if i < j then lazy n m j c' else [])" if "x \<in> set (m i c)" for x
  proof (cases x)
    case (Pair j c')
    show ?thesis
    proof (cases "i < j")
      case True
      with Suc.prems have "N - j \<le> n" by simp
      from Suc.IH[OF this] True Pair show ?thesis by simp
    next
      case False
      with Pair show ?thesis by simp
    qed
  qed
  then have "map (\<lambda>(j, c'). if i < j then lazy (Suc n) m j c' else []) (m i c) =
      map (\<lambda>(j, c'). if i < j then lazy n m j c' else []) (m i c)"
    by (intro map_cong) auto
  then show ?case
    by (simp only: lazy.simps(2)[of "Suc n" m i c] lazy.simps(2)[of n m i c])
qed

lemma quantifier_bound_is_enough:
  "greedy (length s - i + k) (rmatch r s) i c = rmatch (Star r) s i c
   \<and> lazy (length s - i + k) (rmatch r s) i c = rmatch (Lazy r) s i c"
proof (induction k)
  case 0
  show ?case by simp
next
  case (Suc k)
  have "greedy (Suc (length s - i + k)) (rmatch r s) i c = greedy (length s - i + k) (rmatch r s) i c"
    by (rule greedy_spare[of "rmatch r s" "length s"]) (auto dest: rmatch_range)
  moreover
  have "lazy (Suc (length s - i + k)) (rmatch r s) i c = lazy (length s - i + k) (rmatch r s) i c"
    by (rule lazy_spare[of "rmatch r s" "length s"]) (auto dest: rmatch_range)
  ultimately show ?case
    using Suc by simp
qed

subsection \<open>Groups that take part in every match\<close>

lemma greedy_keeps:
  assumes m: "\<And>i c j c'. (j, c') \<in> set (m i c) \<Longrightarrow> c n \<noteq> None \<Longrightarrow> c' n \<noteq> None"
  shows "(j, c') \<in> set (greedy k m i c) \<Longrightarrow> c n \<noteq> None \<Longrightarrow> c' n \<noteq> None"
proof (induction k arbitrary: i c)
  case 0
  then show ?case by simp
next
  case (Suc k)
  from Suc.prems(1) consider "(j, c') = (i, c)"
    | i' d where "(i', d) \<in> set (m i c)" "(j, c') \<in> set (greedy k m i' d)"
    by (auto split: if_splits)
  then show ?case
  proof cases
    case 1
    with Suc.prems(2) show ?thesis by simp
  next
    case 2
    from m[OF 2(1) Suc.prems(2)] have "d n \<noteq> None" .
    from Suc.IH[OF 2(2) this] show ?thesis .
  qed
qed

lemma lazy_keeps:
  assumes m: "\<And>i c j c'. (j, c') \<in> set (m i c) \<Longrightarrow> c n \<noteq> None \<Longrightarrow> c' n \<noteq> None"
  shows "(j, c') \<in> set (lazy k m i c) \<Longrightarrow> c n \<noteq> None \<Longrightarrow> c' n \<noteq> None"
proof (induction k arbitrary: i c)
  case 0
  then show ?case by simp
next
  case (Suc k)
  from Suc.prems(1) consider "(j, c') = (i, c)"
    | i' d where "(i', d) \<in> set (m i c)" "(j, c') \<in> set (lazy k m i' d)"
    by (auto split: if_splits)
  then show ?case
  proof cases
    case 1
    with Suc.prems(2) show ?thesis by simp
  next
    case 2
    from m[OF 2(1) Suc.prems(2)] have "d n \<noteq> None" .
    from Suc.IH[OF 2(2) this] show ?thesis .
  qed
qed

lemma rmatch_keeps:
  "(j, c') \<in> set (rmatch r s i c) \<Longrightarrow> c n \<noteq> None \<Longrightarrow> c' n \<noteq> None"
proof (induction r arbitrary: i c j c')
  case (Seq a b)
  from Seq.prems(1) obtain k d where
    a: "(k, d) \<in> set (rmatch a s i c)" and b: "(j, c') \<in> set (rmatch b s k d)"
    by auto
  from Seq.IH(2)[OF b Seq.IH(1)[OF a Seq.prems(2)]] show ?case .
next
  case (Star r)
  show ?case
  proof (rule greedy_keeps[of "rmatch r s" n j c' "length s - i" i c])
    show "\<And>i c j c'. (j, c') \<in> set (rmatch r s i c) \<Longrightarrow> c n \<noteq> None \<Longrightarrow> c' n \<noteq> None"
      by (rule Star.IH)
    from Star.prems(1) show "(j, c') \<in> set (greedy (length s - i) (rmatch r s) i c)"
      by simp
    show "c n \<noteq> None" by (rule Star.prems(2))
  qed
next
  case (Lazy r)
  show ?case
  proof (rule lazy_keeps[of "rmatch r s" n j c' "length s - i" i c])
    show "\<And>i c j c'. (j, c') \<in> set (rmatch r s i c) \<Longrightarrow> c n \<noteq> None \<Longrightarrow> c' n \<noteq> None"
      by (rule Lazy.IH)
    from Lazy.prems(1) show "(j, c') \<in> set (lazy (length s - i) (rmatch r s) i c)"
      by simp
    show "c n \<noteq> None" by (rule Lazy.prems(2))
  qed
next
  case (Plus r)
  from Plus.prems(1) obtain k d where
    a: "(k, d) \<in> set (rmatch r s i c)"
    and b: "(j, c') \<in> set (greedy (length s - k) (rmatch r s) k d)"
    by auto
  show ?case
  proof (rule greedy_keeps[of "rmatch r s" n j c' "length s - k" k d])
    show "\<And>i c j c'. (j, c') \<in> set (rmatch r s i c) \<Longrightarrow> c n \<noteq> None \<Longrightarrow> c' n \<noteq> None"
      by (rule Plus.IH)
    show "(j, c') \<in> set (greedy (length s - k) (rmatch r s) k d)" by (rule b)
    show "d n \<noteq> None" by (rule Plus.IH[OF a Plus.prems(2)])
  qed
next
  case (Grp g r)
  from Grp.prems(1) obtain d where d: "(j, d) \<in> set (rmatch r s i c)"
    and c': "c' = d(g \<mapsto> substring s i j)"
    by auto
  from Grp.IH[OF d Grp.prems(2)] c' show ?case by simp
qed (auto split: if_splits)

lemma rmatch_binds:
  "binds r n \<Longrightarrow> (j, c') \<in> set (rmatch r s i c) \<Longrightarrow> c' n \<noteq> None"
proof (induction r arbitrary: i c j c')
  case (Seq a b)
  from Seq.prems(2) obtain k d where
    a: "(k, d) \<in> set (rmatch a s i c)" and b: "(j, c') \<in> set (rmatch b s k d)"
    by auto
  show ?case
  proof (cases "binds b n")
    case True
    from Seq.IH(2)[OF True b] show ?thesis .
  next
    case False
    with Seq.prems(1) have "binds a n" by simp
    from rmatch_keeps[OF b Seq.IH(1)[OF this a]] show ?thesis .
  qed
next
  case (Plus r)
  from Plus.prems(2) obtain k d where
    a: "(k, d) \<in> set (rmatch r s i c)"
    and b: "(j, c') \<in> set (greedy (length s - k) (rmatch r s) k d)"
    by auto
  from Plus.prems(1) have "binds r n" by simp
  from Plus.IH[OF this a] have "d n \<noteq> None" .
  with greedy_keeps[of "rmatch r s" n j c' "length s - k" k d] rmatch_keeps b
  show ?case by blast
next
  case (Grp g r)
  from Grp.prems(2) obtain d where d: "(j, d) \<in> set (rmatch r s i c)"
    and c': "c' = d(g \<mapsto> substring s i j)"
    by auto
  show ?case
  proof (cases "g = n")
    case True
    with c' show ?thesis by simp
  next
    case False
    with Grp.prems(1) have "binds r n" by simp
    from Grp.IH[OF this d] c' show ?thesis by simp
  qed
qed simp_all

lemma exec_binds:
  assumes "binds r n" and "exec r s li = (Some m, li')"
  shows "groups m n \<noteq> None"
proof -
  from assms(2) obtain i e c where s: "search r s li = Some (i, e, c)"
    and m: "m = \<lparr>index = i, groups = c(0 \<mapsto> substring s i e)\<rparr>"
    by (auto simp: exec_def split: option.splits)
  from rmatch_binds[OF assms(1) search_Some_mem[OF s]] m show ?thesis
    by simp
qed

lemma comments_group: "exec comments s li = (Some m, li') \<Longrightarrow> groups m 1 \<noteq> None"
  by (rule exec_binds[of comments]) (simp_all add: comments_def seqs_def)

lemma pairs_groups:
  "exec pairs s li = (Some m, li') \<Longrightarrow> groups m 1 \<noteq> None \<and> groups m 2 \<noteq> None"
  using exec_binds[of pairs 1 s li m li'] exec_binds[of pairs 2 s li m li']
  by (simp add: pairs_def seqs_def)

subsection \<open>The loop as a fold over its matches\<close>

lemma parse_loop_fold:
  "parse_loop r source (\<lambda>m st. Inr (f m st)) li st = Inr (0, fold f (scan r source li) st)"
proof (induction r source li arbitrary: st rule: scan.induct)
  case (1 r source li)
  show ?case
  proof (cases "exec r source li")
    case (Pair x li')
    show ?thesis
    proof (cases x)
      case None
      with Pair have "li' = 0"
        by (auto simp: exec_def split: option.splits)
      with Pair None show ?thesis
        by (simp add: parse_loop.simps[of r source _ li st] scan.simps[of r source li])
    next
      case (Some m)
      from "1.IH"[OF Pair[symmetric] Some, of "f m st"] Pair Some show ?thesis
        by (simp add: parse_loop.simps[of r source _ li st] scan.simps[of r source li])
    qed
  qed
qed

lemma fold_assign:
  "fold (\<lambda>(k, v) out. assign out k v) ps out k =
     (if k = ''__proto__'' then out k
      else case map_of (rev ps) k of None \<Rightarrow> out k | Some v \<Rightarrow> Some v)"
proof (induction ps arbitrary: out)
  case Nil
  show ?case by simp
next
  case (Cons p ps)
  obtain k' v' where p: "p = (k', v')"
    by (cases p)
  have "fold (\<lambda>(k, v) out. assign out k v) (p # ps) out k =
      fold (\<lambda>(k, v) out. assign out k v) ps (assign out k' v') k"
    by (simp add: p)
  also have "\<dots> =
      (if k = ''__proto__'' then assign out k' v' k
       else case map_of (rev ps) k of None \<Rightarrow> assign out k' v' k | Some v \<Rightarrow> Some v)"
    by (rule Cons.IH)
  also have "\<dots> =
      (if k = ''__proto__'' then out k
       else case map_of (rev (p # ps)) k of None \<Rightarrow> out k | Some v \<Rightarrow> Some v)"
    by (simp add: p assign_def map_add_def split: option.splits)
  finally show ?case .
qed

lemma scan_comments_Nil: "scan comments [] 0 = []"
  using search_comments_None[of "[]" 0]
  by (simp add: scan.simps[of comments "[]" 0] exec_def)

lemma parseComments_fold:
  "parseComments (Some source) =
     Inr (fold (\<lambda>(k, v) out. assign out k v) (metadata_pairs source) Map.empty)"
proof (cases "source = []")
  case True
  then show ?thesis
    by (simp add: parseComments_def metadata_pairs_def scan_comments_Nil)
next
  case False
  let ?g = "\<lambda>pair out. assign out (capture pair 1) (capture pair 2)"
  let ?inner = "\<lambda>pair out. Inr (?g pair out) :: error + (string \<rightharpoonup> string)"
  let ?F = "\<lambda>comment (st :: nat \<times> (string \<rightharpoonup> string)).
      (0::nat, fold ?g (scan pairs (capture comment 1) (fst st)) (snd st))"
  let ?outer = "\<lambda>comment (pli, out). parse pairs (capture comment 1) (Some ?inner) pli out"
  have outer: "?outer = (\<lambda>comment st. Inr (?F comment st))"
    by (intro ext) (simp add: parse_def parse_loop_fold split: prod.splits)
  have block: "fold (\<lambda>(k, v) out. assign out k v) (pairs_in inside) out =
      fold ?g (scan pairs inside 0) out" for inside and out :: "string \<rightharpoonup> string"
    by (simp add: pairs_in_def fold_map comp_def)
  have run: "fold ?F cs (0, out) =
      (0, fold (\<lambda>(k, v) out. assign out k v)
            (concat (map (\<lambda>comment. pairs_in (capture comment 1)) cs)) out)"
    for cs and out :: "string \<rightharpoonup> string"
    by (induction cs arbitrary: out) (simp_all add: block)
  have "parse comments source (Some ?outer) 0 (0, Map.empty) =
      Inr (0, fold ?F (scan comments source 0) (0, Map.empty))"
    unfolding outer by (simp add: parse_def parse_loop_fold)
  then have "parse comments source (Some ?outer) 0 (0, Map.empty) =
      Inr (0, 0, fold (\<lambda>(k, v) out. assign out k v) (metadata_pairs source) Map.empty)"
    unfolding run metadata_pairs_def .
  then show ?thesis
    using False by (simp add: parseComments_def)
qed

lemma exec_match:
  assumes "exec r s li = (Some m, li')"
  shows "li \<le> index m \<and> index m + length (capture m 0) = li' \<and> li' \<le> length s"
proof -
  from assms obtain i e c where s: "search r s li = Some (i, e, c)"
    and m: "m = \<lparr>index = i, groups = c(0 \<mapsto> substring s i e)\<rparr>" and e: "li' = e"
    by (auto simp: exec_def split: option.splits)
  from search_bounds[OF s] show ?thesis
    by (auto simp: m e capture_def substring_def min_def)
qed

lemma scan_from: "m \<in> set (scan r s li) \<Longrightarrow> li \<le> index m"
proof (induction r s li rule: scan.induct)
  case (1 r s li)
  show ?case
  proof (cases "exec r s li")
    case (Pair x li')
    show ?thesis
    proof (cases x)
      case None
      with Pair "1.prems" show ?thesis
        by (simp add: scan.simps[of r s li])
    next
      case (Some m')
      from Pair Some have e: "exec r s li = (Some m', li')"
        by simp
      from "1.prems" Pair Some consider "m = m'"
        | "m \<in> set (scan r s (if index m' = li' then li' + 1 else li'))"
        by (auto simp: scan.simps[of r s li])
      then show ?thesis
      proof cases
        case 1
        with exec_match[OF e] show ?thesis by simp
      next
        case 2
        from "1.IH"[OF Pair[symmetric] Some 2] exec_match[OF e] show ?thesis
          by (auto split: if_splits)
      qed
    qed
  qed
qed

subsection \<open>The file to load\<close>

lemma in_rmatch_Plus_Cls:
  "(j, c') \<in> set (rmatch (Plus (Cls ms)) s i c) \<longleftrightarrow>
     c' = c \<and> i < j \<and> j \<le> length s \<and>
     (\<forall>k. i \<le> k \<and> k < j \<longrightarrow> list_ex (\<lambda>m. cls_mem m (s ! k)) ms)"
proof -
  let ?P = "\<lambda>k. k < length s \<and> list_ex (\<lambda>m. cls_mem m (s ! k)) ms"
  have "(j, c') \<in> set (rmatch (Plus (Cls ms)) s i c) \<longleftrightarrow>
      ?P i \<and> (j, c') \<in> set (greedy (length s - Suc i) (rmatch (Cls ms) s) (Suc i) c)"
    by auto
  also have "\<dots> \<longleftrightarrow> ?P i \<and> c' = c \<and> Suc i \<le> j \<and> j \<le> Suc i + (length s - Suc i)
      \<and> (\<forall>k. Suc i \<le> k \<and> k < j \<longrightarrow> ?P k)"
    unfolding in_greedy_Cls by blast
  also have "\<dots> \<longleftrightarrow> c' = c \<and> i < j \<and> j \<le> length s
      \<and> (\<forall>k. i \<le> k \<and> k < j \<longrightarrow> list_ex (\<lambda>m. cls_mem m (s ! k)) ms)"
  proof (intro iffI)
    assume a: "?P i \<and> c' = c \<and> Suc i \<le> j \<and> j \<le> Suc i + (length s - Suc i)
      \<and> (\<forall>k. Suc i \<le> k \<and> k < j \<longrightarrow> ?P k)"
    have "list_ex (\<lambda>m. cls_mem m (s ! k)) ms" if "i \<le> k \<and> k < j" for k
    proof (cases "k = i")
      case True
      with a show ?thesis by simp
    next
      case False
      with that have "Suc i \<le> k \<and> k < j" by simp
      with a show ?thesis by blast
    qed
    with a show "c' = c \<and> i < j \<and> j \<le> length s
      \<and> (\<forall>k. i \<le> k \<and> k < j \<longrightarrow> list_ex (\<lambda>m. cls_mem m (s ! k)) ms)"
      by auto
  next
    assume a: "c' = c \<and> i < j \<and> j \<le> length s
      \<and> (\<forall>k. i \<le> k \<and> k < j \<longrightarrow> list_ex (\<lambda>m. cls_mem m (s ! k)) ms)"
    then have "?P i" by auto
    moreover from a have "\<forall>k. Suc i \<le> k \<and> k < j \<longrightarrow> ?P k" by auto
    ultimately show "?P i \<and> c' = c \<and> Suc i \<le> j \<and> j \<le> Suc i + (length s - Suc i)
      \<and> (\<forall>k. Suc i \<le> k \<and> k < j \<longrightarrow> ?P k)"
      using a by auto
  qed
  finally show ?thesis .
qed

text \<open>Where the pattern \<open>extension\<close> matches: at a dot that only word characters
  follow, at least one, up to the end.\<close>

lemma in_rmatch_extension:
  "(e, c') \<in> set (rmatch extension s i c) \<longleftrightarrow>
     c' = c \<and> e = length s \<and> i < length s \<and> s ! i = CHR ''.'' \<and> Suc i < length s
     \<and> (\<forall>k. Suc i \<le> k \<and> k < length s \<longrightarrow> is_word (s ! k))"
  unfolding extension_def seqs_Cons seqs_Nil in_rmatch_Seq in_rmatch_Plus_Cls
  by (auto split: if_splits)

lemma search_Some_first:
  "search r s li = Some (i, e, c) \<Longrightarrow>
     li \<le> i \<and> (\<forall>j. li \<le> j \<and> j < i \<longrightarrow> rmatch r s j (\<lambda>_. None) = [])"
proof (induction r s li rule: search.induct)
  case (1 r s li)
  show ?case
  proof (cases "rmatch r s li (\<lambda>_. None)")
    case Nil
    with "1.prems" have le: "\<not> length s < li" and rec: "search r s (Suc li) = Some (i, e, c)"
      by (auto simp: search.simps[of r s li] split: if_splits)
    from "1.IH"[OF le Nil rec] have ih: "Suc li \<le> i"
      "\<forall>j. Suc li \<le> j \<and> j < i \<longrightarrow> rmatch r s j (\<lambda>_. None) = []"
      by simp_all
    have "rmatch r s j (\<lambda>_. None) = []" if "li \<le> j \<and> j < i" for j
    proof (cases "j = li")
      case True
      with Nil show ?thesis by simp
    next
      case False
      with that have "Suc li \<le> j \<and> j < i" by simp
      with ih(2) show ?thesis by blast
    qed
    with ih(1) show ?thesis by simp
  next
    case (Cons p ps)
    with "1.prems" have "i = li"
      by (auto simp: search.simps[of r s li] split: if_splits prod.splits)
    then show ?thesis by auto
  qed
qed

lemma md_file_with_extension:
  assumes "ext \<noteq> []" and "list_all is_word ext"
  shows "md_file (stem @ ''.'' @ ext) = stem @ ''.md''"
proof -
  let ?s = "stem @ ''.'' @ ext"
  let ?c = "\<lambda>_::nat. None :: string option"
  have word: "is_word (?s ! k)" if "Suc (length stem) \<le> k \<and> k < length ?s" for k
  proof -
    from that have "?s ! k = ext ! (k - Suc (length stem))" and "k - Suc (length stem) < length ext"
      by (auto simp: nth_append)
    with assms(2) show ?thesis
      by (simp add: list_all_length)
  qed
  with assms(1) have here: "(length ?s, ?c) \<in> set (rmatch extension ?s (length stem) ?c)"
    unfolding in_rmatch_extension by (auto simp: nth_append)
  then have nonempty: "rmatch extension ?s (length stem) ?c \<noteq> []"
    by auto
  have "search extension ?s 0 \<noteq> None"
  proof
    assume "search extension ?s 0 = None"
    then have "\<forall>j. 0 \<le> j \<and> j \<le> length ?s \<longrightarrow> rmatch extension ?s j ?c = []"
      by (simp only: search_None_iff)
    then have "rmatch extension ?s (length stem) ?c = []"
      by simp
    with nonempty show False
      by simp
  qed
  then obtain i e c where s: "search extension ?s 0 = Some (i, e, c)"
    by auto
  from search_Some_mem[OF s] have at: "e = length ?s" "i < length ?s" "?s ! i = CHR ''.''"
    "\<forall>k. Suc i \<le> k \<and> k < length ?s \<longrightarrow> is_word (?s ! k)"
    unfolding in_rmatch_extension by simp_all
  have dot: "\<not> is_word CHR ''.''"
    by (simp add: is_word_def)
  have "i = length stem"
  proof (rule ccontr)
    assume ne: "i \<noteq> length stem"
    show False
    proof (cases "i < length stem")
      case True
      then have "Suc i \<le> length stem \<and> length stem < length ?s" by simp
      with at(4) have "is_word (?s ! length stem)" by blast
      with dot show False by (simp add: nth_append)
    next
      case False
      with ne have "Suc (length stem) \<le> i \<and> i < length ?s"
        using at(2) by simp
      from word[OF this] at(3) dot show False by simp
    qed
  qed
  with s at(1) show ?thesis
    by (simp add: md_file_def remove_first_def)
qed

lemma md_file_without_extension:
  assumes "\<not> (\<exists>stem ext. path = stem @ ''.'' @ ext \<and> ext \<noteq> [] \<and> list_all is_word ext)"
  shows "md_file path = path @ ''.md''"
proof (cases "search extension path 0")
  case None
  then show ?thesis
    by (simp add: md_file_def remove_first_def)
next
  case (Some m)
  obtain i e c where m: "m = (i, e, c)"
    by (cases m)
  from search_Some_mem[of extension path 0 i e c] Some m
  have at: "i < length path" "path ! i = CHR ''.''" "Suc i < length path"
    "\<forall>k. Suc i \<le> k \<and> k < length path \<longrightarrow> is_word (path ! k)"
    unfolding in_rmatch_extension by simp_all
  from at(1,2) id_take_nth_drop[of i path]
  have "path = take i path @ ''.'' @ drop (Suc i) path"
    by simp
  moreover from at(3) have "drop (Suc i) path \<noteq> []"
    by simp
  moreover from at(4) have "list_all is_word (drop (Suc i) path)"
    by (auto simp: list_all_length)
  ultimately show ?thesis
    using assms by blast
qed

subsection \<open>Joining\<close>

lemma join_closed_form:
  "join sep (x # xs) = element x @ concat (map (\<lambda>y. sep @ element y) xs)"
  by (induction sep "x # xs" arbitrary: x xs rule: join.induct) simp_all

lemma join_element: "join sep (map (\<lambda>x. Some (element x)) xs) = join sep xs"
  by (induction sep xs rule: join.induct) (simp_all add: element_def)

lemma sublist_around:
  assumes "c \<notin> set u" and "sublist u (a @ c # b)"
  shows "sublist u a \<or> sublist u b"
proof -
  from assms(2) consider "sublist u a" | "sublist u (c # b)"
    | u1 u2 where "u = u1 @ u2" "suffix u1 a" "prefix u2 (c # b)"
    by (auto simp: sublist_append)
  then show ?thesis
  proof cases
    case 1
    then show ?thesis by simp
  next
    case 2
    then have "prefix u (c # b) \<or> sublist u b"
      by (simp add: sublist_Cons_right)
    with assms(1) show ?thesis
      by (cases u) auto
  next
    case 3
    with assms(1) have "u2 = []"
      by (cases u2) auto
    with 3 show ?thesis by auto
  qed
qed

lemma sublist_join:
  "CHR ''/'' \<notin> set u \<Longrightarrow> u \<noteq> [] \<Longrightarrow> sublist u (join ''/'' xs) \<Longrightarrow> \<exists>x\<in>set xs. sublist u (element x)"
proof (induction "''/''" xs rule: join.induct)
  case 1
  then show ?case by simp
next
  case (2 x)
  then show ?case by simp
next
  case (3 x y ys)
  from "3.prems"(3) have "sublist u (element x @ CHR ''/'' # join ''/'' (y # ys))"
    by simp
  from sublist_around[OF "3.prems"(1) this] "3.hyps"[OF "3.prems"(1,2)]
  show ?case by auto
qed


subsection \<open>How a resolution ends\<close>

lemmas scan_eval =
  parseComments_def parse_def parse_loop.simps exec_def search.simps comments_def pairs_def
  seqs_def lit_def is_space_def is_word_def is_digit_def substring_def capture_def assign_def

lemma trace_reset_cache:
  "trace (reset_cache l s) =
     trace s @ (if (case cache s of None \<Rightarrow> True | Some c \<Rightarrow> l \<noteq> lang c) then [ResetCache l] else [])"
  by (simp add: reset_cache_def)

lemma cache_reset_cache:
  "cache (reset_cache l s) =
     (if (case cache s of None \<Rightarrow> True | Some c \<Rightarrow> l \<noteq> lang c)
      then Some \<lparr>lang = l, entries = Map.empty\<rparr> else cache s)"
  by (simp add: reset_cache_def)

lemma resolve_primary_failed:
  assumes "resolvePath (Some (paramMap route)) = Some path"
    and "loadFile cs (root_of route) (selector_resolve cs route) (md_file path) = Inl e"
  shows "resolve cs route s =
     (Inr [''body'' \<mapsto> []],
      (reset_cache (selector_resolve cs route) s)
        \<lparr>trace := trace (reset_cache (selector_resolve cs route) s) @
           [LoadFile (root_of route) (selector_resolve cs route) (md_file path),
            Navigate [''/not-found'']]\<rparr>)"
  using assms by (simp add: resolve_def load_def not_found_def Let_def)

lemma resolve_without_toc:
  assumes "resolvePath (Some (paramMap route)) = Some path"
    and "loadFile cs (root_of route) (selector_resolve cs route) (md_file path) = Inr body"
    and "parseComments (Some body) = Inr options"
    and "options ''toc'' = None \<or> options ''toc'' = Some []"
  shows "resolve cs route s =
     (Inr ([''body'' \<mapsto> body, ''path'' \<mapsto> path] ++ options),
      (reset_cache (selector_resolve cs route) s)
        \<lparr>trace := trace (reset_cache (selector_resolve cs route) s) @
           [LoadFile (root_of route) (selector_resolve cs route) (md_file path)]\<rparr>)"
  using assms by (auto simp: resolve_def load_def with_options_def Let_def)

lemma resolve_toc_failed:
  assumes "resolvePath (Some (paramMap route)) = Some path"
    and "loadFile cs (root_of route) (selector_resolve cs route) (md_file path) = Inr body"
    and "parseComments (Some body) = Inr options"
    and "options ''toc'' = Some t" and "t \<noteq> []"
    and "loadFile cs (root_of route) (selector_resolve cs route) t = Inl e"
  shows "resolve cs route s =
     (Inr [''body'' \<mapsto> []],
      (reset_cache (selector_resolve cs route) s)
        \<lparr>trace := trace (reset_cache (selector_resolve cs route) s) @
           [LoadFile (root_of route) (selector_resolve cs route) (md_file path),
            LoadFile (root_of route) (selector_resolve cs route) t,
            Navigate [''/not-found'']]\<rparr>)"
  using assms by (simp add: resolve_def load_def with_options_def not_found_def Let_def)

lemma resolve_with_toc:
  assumes "resolvePath (Some (paramMap route)) = Some path"
    and "loadFile cs (root_of route) (selector_resolve cs route) (md_file path) = Inr body"
    and "parseComments (Some body) = Inr options"
    and "options ''toc'' = Some t" and "t \<noteq> []"
    and "loadFile cs (root_of route) (selector_resolve cs route) t = Inr toc"
  shows "resolve cs route s =
     (Inr (([''body'' \<mapsto> body, ''path'' \<mapsto> path] ++ options)(''toc'' \<mapsto> toc)),
      (reset_cache (selector_resolve cs route) s)
        \<lparr>trace := trace (reset_cache (selector_resolve cs route) s) @
           [LoadFile (root_of route) (selector_resolve cs route) (md_file path),
            LoadFile (root_of route) (selector_resolve cs route) t]\<rparr>)"
  using assms by (simp add: resolve_def load_def with_options_def Let_def)

text \<open>The four ways a resolution ends.\<close>

lemma resolve_cases:
  obtains (primary_failed) path e where
      "resolvePath (Some (paramMap route)) = Some path"
      "loadFile cs (root_of route) (selector_resolve cs route) (md_file path) = Inl e"
  | (without_toc) path body options where
      "resolvePath (Some (paramMap route)) = Some path"
      "loadFile cs (root_of route) (selector_resolve cs route) (md_file path) = Inr body"
      "parseComments (Some body) = Inr options"
      "options ''toc'' = None \<or> options ''toc'' = Some []"
  | (toc_failed) path body options t e where
      "resolvePath (Some (paramMap route)) = Some path"
      "loadFile cs (root_of route) (selector_resolve cs route) (md_file path) = Inr body"
      "parseComments (Some body) = Inr options"
      "options ''toc'' = Some t" "t \<noteq> []"
      "loadFile cs (root_of route) (selector_resolve cs route) t = Inl e"
  | (with_toc) path body options t toc where
      "resolvePath (Some (paramMap route)) = Some path"
      "loadFile cs (root_of route) (selector_resolve cs route) (md_file path) = Inr body"
      "parseComments (Some body) = Inr options"
      "options ''toc'' = Some t" "t \<noteq> []"
      "loadFile cs (root_of route) (selector_resolve cs route) t = Inr toc"
proof -
  obtain path where path: "resolvePath (Some (paramMap route)) = Some path"
    by (simp add: resolvePath_Some)
  show thesis
  proof (cases "loadFile cs (root_of route) (selector_resolve cs route) (md_file path)")
    case (Inl e)
    with path show ?thesis by (rule primary_failed)
  next
    case (Inr body)
    obtain options where options: "parseComments (Some body) = Inr options"
      using parseComments_returns by blast
    show ?thesis
    proof (cases "options ''toc'' = None \<or> options ''toc'' = Some []")
      case True
      with path Inr options show ?thesis by (rule without_toc)
    next
      case False
      then obtain t where t: "options ''toc'' = Some t" "t \<noteq> []"
        by auto
      show ?thesis
      proof (cases "loadFile cs (root_of route) (selector_resolve cs route) t")
        case (Inl e)
        with path Inr options t show ?thesis by (rule toc_failed[where body = body])
      next
        case toc: (Inr toc)
        with path Inr options t show ?thesis by (rule with_toc[where body = body])
      qed
    qed
  qed
qed


lemma navigations_reset_cache: "navigations (trace (reset_cache l s)) = navigations (trace s)"
  by (simp add: trace_reset_cache navigations_append)

lemma loads_reset_cache: "loads (trace (reset_cache l s)) = loads (trace s)"
  by (simp add: trace_reset_cache loads_append)

lemma md_file_guide: "md_file ''guide'' = ''guide.md''"
  by (simp add: md_file_def remove_first_def extension_def scan_eval)

lemma md_file_missing: "md_file ''missing'' = ''missing.md''"
  by (simp add: md_file_def remove_first_def extension_def scan_eval)

lemma path_guide:
  "resolvePath (Some \<lparr>keys = [''path''], get = [''path'' \<mapsto> v]\<rparr>) = Some v"
  by (simp add: resolvePath_Some matches_path_key is_path_key_def element_def)

lemma toc_key_apart: "([''body'' \<mapsto> body, ''path'' \<mapsto> path] ++ options) ''toc'' = options ''toc''"
  by (simp add: map_add_def split: option.splits)

lemma md_file_plain: "md_file ''plain'' = ''plain.md''"
  by (simp add: md_file_def remove_first_def extension_def scan_eval)

lemma resolve_effects:
  "\<exists>path evs.
     resolvePath (Some (paramMap route)) = Some path
     \<and> cache (snd (resolve cs route s)) = cache (reset_cache (selector_resolve cs route) s)
     \<and> trace (snd (resolve cs route s)) =
         trace (reset_cache (selector_resolve cs route) s) @
         LoadFile (root_of route) (selector_resolve cs route) (md_file path) # evs
     \<and> resets evs = []"
proof (cases rule: resolve_cases[of route cs])
  case (primary_failed path e)
  from resolve_primary_failed[OF primary_failed, of s] primary_failed(1) show ?thesis
    by (intro exI[of _ path] exI[of _ "[Navigate [''/not-found'']]"]) simp
next
  case (without_toc path body options)
  from resolve_without_toc[OF without_toc, of s] without_toc(1) show ?thesis
    by (intro exI[of _ path] exI[of _ "[]"]) simp
next
  case (toc_failed path body options t e)
  from resolve_toc_failed[OF toc_failed, of s] toc_failed(1) show ?thesis
    by (intro exI[of _ path]
        exI[of _ "[LoadFile (root_of route) (selector_resolve cs route) t, Navigate [''/not-found'']]"])
      simp
next
  case (with_toc path body options t toc)
  from resolve_with_toc[OF with_toc, of s] with_toc(1) show ?thesis
    by (intro exI[of _ path] exI[of _ "[LoadFile (root_of route) (selector_resolve cs route) t]"]) simp
qed

section \<open>The claims\<close>

subsection \<open>Path assembly\<close>

text \<open>
  C3, as the specification states it: a segment set in which a key matching
  \<^verbatim>\<open>^path\d*$\<close> has no value makes path assembly fail with \<^verbatim>\<open>InvalidRequest\<close>. The
  code has no such failure: with the keys \<^verbatim>\<open>path\<close> and \<^verbatim>\<open>path1\<close>, of which only
  \<^verbatim>\<open>path\<close> has a value, it returns the path \<^verbatim>\<open>a/\<close>.
\<close>

theorem resolvePath_missing_value_counterexample:
  "resolvePath (Some \<lparr>keys = [''path'', ''path1''], get = [''path'' \<mapsto> ''a'']\<rparr>) = Some ''a/''"
  by (simp add: resolvePath_Some matches_path_key is_path_key_def is_digit_def element_def)


text \<open>
  C3, amended: path assembly never fails. A matched key without a value is joined as the
  empty string, exactly as if its value were the empty string, and the word
  \<^verbatim>\<open>undefined\<close> is never put into the path: when no value of a matched key contains it,
  the assembled path does not contain it.
\<close>

theorem resolvePath_missing_value:
  "resolvePath (Some p) \<noteq> None
   \<and> resolvePath (Some p) = resolvePath (Some (p\<lparr>get := \<lambda>k. Some (element (get p k))\<rparr>))
   \<and> (list_all (\<lambda>k. \<not> sublist ''undefined'' (element (get p k))) (filter is_path_key (keys p)) \<longrightarrow>
        \<not> sublist ''undefined'' (element (resolvePath (Some p))))"
proof -
  let ?ks = "filter is_path_key (keys p)"
  have m: "matches path_key = is_path_key"
    by (rule ext) (rule matches_path_key)
  have r: "resolvePath (Some p) = Some (join ''/'' (map (get p) ?ks))"
    by (simp add: resolvePath_Some m)
  have same: "resolvePath (Some (p\<lparr>get := \<lambda>k. Some (element (get p k))\<rparr>)) = resolvePath (Some p)"
    using join_element[of "''/''" "map (get p) ?ks"]
    by (simp add: resolvePath_Some m comp_def)
  have "\<not> sublist ''undefined'' (join ''/'' (map (get p) ?ks))"
    if a: "list_all (\<lambda>k. \<not> sublist ''undefined'' (element (get p k))) ?ks"
  proof
    assume "sublist ''undefined'' (join ''/'' (map (get p) ?ks))"
    from sublist_join[OF _ _ this] obtain k where "k \<in> set ?ks" "sublist ''undefined'' (element (get p k))"
      by auto
    with a show False
      by (auto simp: list_all_iff)
  qed
  with r same show ?thesis
    by (simp add: element_def)
qed


theorem resolvePath_missing_value_witness:
  "resolvePath (Some \<lparr>keys = [''path'', ''path1''], get = [''path'' \<mapsto> ''a'']\<rparr>) \<noteq> None
   \<and> \<not> sublist ''undefined''
        (element (resolvePath (Some \<lparr>keys = [''path'', ''path1''], get = [''path'' \<mapsto> ''a'']\<rparr>)))"
proof -
  let ?p = "\<lparr>keys = [''path'', ''path1''], get = [''path'' \<mapsto> ''a'']\<rparr>"
  have "list_all (\<lambda>k. \<not> sublist ''undefined'' (element (get ?p k))) (filter is_path_key (keys ?p))"
    by (simp add: is_path_key_def is_digit_def element_def sublist_code(3))
  with resolvePath_missing_value[of ?p] show ?thesis
    by blast
qed


text \<open>
  C4: path assembly keeps the pairs whose key is \<^verbatim>\<open>path\<close> followed by digits only, in
  their order, and joins their values with one \<^verbatim>\<open>/\<close> between neighbours: the first
  value, then a \<^verbatim>\<open>/\<close> and the value for each further one. When no key matches, the
  path is the empty string.
\<close>

theorem resolvePath_assembles:
  "resolvePath (Some p) =
     Some (case map (\<lambda>k. element (get p k)) (filter is_path_key (keys p)) of
             [] \<Rightarrow> []
           | v # vs \<Rightarrow> v @ concat (map (\<lambda>w. CHR ''/'' # w) vs))
   \<and> (list_all (\<lambda>k. \<not> is_path_key k) (keys p) \<longrightarrow> resolvePath (Some p) = Some [])"
proof -
  let ?ks = "filter is_path_key (keys p)"
  have m: "matches path_key = is_path_key"
    by (rule ext) (rule matches_path_key)
  have r: "resolvePath (Some p) = Some (join ''/'' (map (get p) ?ks))"
    by (simp add: resolvePath_Some m)
  have "join ''/'' (map (get p) ?ks) =
      (case map (\<lambda>k. element (get p k)) ?ks of [] \<Rightarrow> [] | v # vs \<Rightarrow> v @ concat (map (\<lambda>w. CHR ''/'' # w) vs))"
  proof (cases ?ks)
    case Nil
    then show ?thesis by simp
  next
    case (Cons k ks)
    then show ?thesis
      by (simp add: join_closed_form comp_def)
  qed
  moreover have "list_all (\<lambda>k. \<not> is_path_key k) (keys p) \<Longrightarrow> ?ks = []"
    by (simp add: list_all_iff filter_empty_conv)
  ultimately show ?thesis
    using r by auto
qed


theorem resolvePath_assembles_witness:
  "resolvePath (Some \<lparr>keys = [''path'', ''path1'', ''path2''],
       get = [''path'' \<mapsto> ''a'', ''path1'' \<mapsto> ''b'', ''path2'' \<mapsto> ''c'']\<rparr>) = Some ''a/b/c''
   \<and> resolvePath (Some \<lparr>keys = [''id'', ''pathway'', ''xpath''], get = (\<lambda>k. Some ''v'')\<rparr>) = Some []"
  using resolvePath_assembles[of "\<lparr>keys = [''path'', ''path1'', ''path2''],
       get = [''path'' \<mapsto> ''a'', ''path1'' \<mapsto> ''b'', ''path2'' \<mapsto> ''c'']\<rparr>"]
    resolvePath_assembles[of "\<lparr>keys = [''id'', ''pathway'', ''xpath''], get = (\<lambda>k. Some ''v'')\<rparr>"]
  by (simp add: is_path_key_def is_digit_def element_def)


subsection \<open>Resolution\<close>

text \<open>
  C1: \<open>resolve\<close> never raises to its caller. When the primary document fails to load,
  or the metadata names a table of contents and that second load fails, \<open>resolve\<close>
  navigates to the not-found page exactly once and emits \<^verbatim>\<open>{ body: '' }\<close>, an object
  with no other property; the failure itself is not passed on.
\<close>

theorem resolve_never_raises:
  "(\<exists>r. fst (resolve cs route s) = Inr r)
   \<and> (\<forall>path e.
         resolvePath (Some (paramMap route)) = Some path
         \<and> loadFile cs (root_of route) (selector_resolve cs route) (md_file path) = Inl e
         \<longrightarrow> fst (resolve cs route s) = Inr [''body'' \<mapsto> []]
             \<and> navigations (trace (snd (resolve cs route s))) =
                 navigations (trace s) @ [[''/not-found'']])
   \<and> (\<forall>path body options t e.
         resolvePath (Some (paramMap route)) = Some path
         \<and> loadFile cs (root_of route) (selector_resolve cs route) (md_file path) = Inr body
         \<and> parseComments (Some body) = Inr options
         \<and> options ''toc'' = Some t \<and> t \<noteq> []
         \<and> loadFile cs (root_of route) (selector_resolve cs route) t = Inl e
         \<longrightarrow> fst (resolve cs route s) = Inr [''body'' \<mapsto> []]
             \<and> navigations (trace (snd (resolve cs route s))) =
                 navigations (trace s) @ [[''/not-found'']])"
proof (intro conjI allI impI)
  show "\<exists>r. fst (resolve cs route s) = Inr r"
  proof (cases rule: resolve_cases[of route cs])
    case primary_failed
    then show ?thesis by (simp add: resolve_primary_failed)
  next
    case without_toc
    then show ?thesis by (simp add: resolve_without_toc)
  next
    case toc_failed
    then show ?thesis by (simp add: resolve_toc_failed)
  next
    case with_toc
    then show ?thesis by (simp add: resolve_with_toc)
  qed
next
  fix path e
  assume "resolvePath (Some (paramMap route)) = Some path
      \<and> loadFile cs (root_of route) (selector_resolve cs route) (md_file path) = Inl e"
  then have r: "resolve cs route s =
      (Inr [''body'' \<mapsto> []],
       (reset_cache (selector_resolve cs route) s)
         \<lparr>trace := trace (reset_cache (selector_resolve cs route) s) @
            [LoadFile (root_of route) (selector_resolve cs route) (md_file path),
             Navigate [''/not-found'']]\<rparr>)"
    by (simp add: resolve_primary_failed)
  show "fst (resolve cs route s) = Inr [''body'' \<mapsto> []]"
    by (simp add: r)
  show "navigations (trace (snd (resolve cs route s))) = navigations (trace s) @ [[''/not-found'']]"
    by (simp add: r navigations_append navigations_reset_cache)
next
  fix path body options t e
  assume "resolvePath (Some (paramMap route)) = Some path
      \<and> loadFile cs (root_of route) (selector_resolve cs route) (md_file path) = Inr body
      \<and> parseComments (Some body) = Inr options
      \<and> options ''toc'' = Some t \<and> t \<noteq> []
      \<and> loadFile cs (root_of route) (selector_resolve cs route) t = Inl e"
  then have r: "resolve cs route s =
      (Inr [''body'' \<mapsto> []],
       (reset_cache (selector_resolve cs route) s)
         \<lparr>trace := trace (reset_cache (selector_resolve cs route) s) @
            [LoadFile (root_of route) (selector_resolve cs route) (md_file path),
             LoadFile (root_of route) (selector_resolve cs route) t,
             Navigate [''/not-found'']]\<rparr>)"
    by (simp add: resolve_toc_failed)
  show "fst (resolve cs route s) = Inr [''body'' \<mapsto> []]"
    by (simp add: r)
  show "navigations (trace (snd (resolve cs route s))) = navigations (trace s) @ [[''/not-found'']]"
    by (simp add: r navigations_append navigations_reset_cache)
qed

theorem resolve_never_raises_witness:
  "fst (resolve \<lparr>selector_resolve = always ''en'',
                 loadFile = serving [(''guide.md'', ''<!-- toc: nav.md -->'')]\<rparr>
         \<lparr>data_source = Some ''docs'',
          paramMap = \<lparr>keys = [''path''], get = [''path'' \<mapsto> ''guide'']\<rparr>\<rparr>
         \<lparr>cache = None, trace = []\<rparr>) = Inr [''body'' \<mapsto> []]
   \<and> navigations (trace (snd (resolve \<lparr>selector_resolve = always ''en'',
                 loadFile = serving [(''guide.md'', ''<!-- toc: nav.md -->'')]\<rparr>
         \<lparr>data_source = Some ''docs'',
          paramMap = \<lparr>keys = [''path''], get = [''path'' \<mapsto> ''guide'']\<rparr>\<rparr>
         \<lparr>cache = None, trace = []\<rparr>))) = [[''/not-found'']]
   \<and> fst (resolve \<lparr>selector_resolve = always ''en'',
                 loadFile = serving [(''guide.md'', ''<!-- toc: nav.md -->'')]\<rparr>
         \<lparr>data_source = Some ''docs'',
          paramMap = \<lparr>keys = [''path''], get = [''path'' \<mapsto> ''missing'']\<rparr>\<rparr>
         \<lparr>cache = None, trace = []\<rparr>) = Inr [''body'' \<mapsto> []]
   \<and> navigations (trace (snd (resolve \<lparr>selector_resolve = always ''en'',
                 loadFile = serving [(''guide.md'', ''<!-- toc: nav.md -->'')]\<rparr>
         \<lparr>data_source = Some ''docs'',
          paramMap = \<lparr>keys = [''path''], get = [''path'' \<mapsto> ''missing'']\<rparr>\<rparr>
         \<lparr>cache = None, trace = []\<rparr>))) = [[''/not-found'']]"
proof -
  let ?cs = "\<lparr>selector_resolve = always ''en'',
              loadFile = serving [(''guide.md'', ''<!-- toc: nav.md -->'')]\<rparr>"
  let ?guide = "\<lparr>data_source = Some ''docs'',
                 paramMap = \<lparr>keys = [''path''], get = [''path'' \<mapsto> ''guide'']\<rparr>\<rparr>"
  let ?missing = "\<lparr>data_source = Some ''docs'',
                   paramMap = \<lparr>keys = [''path''], get = [''path'' \<mapsto> ''missing'']\<rparr>\<rparr>"
  let ?s = "\<lparr>cache = None, trace = []\<rparr>"
  have secondary:
    "resolvePath (Some (paramMap ?guide)) = Some ''guide''
     \<and> loadFile ?cs (root_of ?guide) (selector_resolve ?cs ?guide) (md_file ''guide'')
         = Inr ''<!-- toc: nav.md -->''
     \<and> parseComments (Some ''<!-- toc: nav.md -->'') = Inr [''toc'' \<mapsto> ''nav.md'']
     \<and> [''toc'' \<mapsto> ''nav.md''] ''toc'' = Some ''nav.md'' \<and> ''nav.md'' \<noteq> []
     \<and> loadFile ?cs (root_of ?guide) (selector_resolve ?cs ?guide) ''nav.md'' = Inl NotFound"
    by (simp add: path_guide md_file_guide serving_def scan_eval)
  have primary:
    "resolvePath (Some (paramMap ?missing)) = Some ''missing''
     \<and> loadFile ?cs (root_of ?missing) (selector_resolve ?cs ?missing) (md_file ''missing'')
         = Inl NotFound"
    by (simp add: path_guide md_file_missing serving_def)
  from resolve_never_raises[of ?cs ?guide ?s] secondary
  have "fst (resolve ?cs ?guide ?s) = Inr [''body'' \<mapsto> []]
      \<and> navigations (trace (snd (resolve ?cs ?guide ?s))) = navigations (trace ?s) @ [[''/not-found'']]"
    by blast
  moreover from resolve_never_raises[of ?cs ?missing ?s] primary
  have "fst (resolve ?cs ?missing ?s) = Inr [''body'' \<mapsto> []]
      \<and> navigations (trace (snd (resolve ?cs ?missing ?s))) = navigations (trace ?s) @ [[''/not-found'']]"
    by blast
  ultimately show ?thesis
    by simp
qed

text \<open>
  C2, as the specification states it: the result has a \<open>toc\<close> property only if the
  metadata had a \<open>toc\<close> key and the second load succeeded. A document that writes its
  table of contents with a leading slash, \<^verbatim>\<open><!-- toc: /nav.md -->\<close>, has the metadata
  \<open>toc\<close> with the empty value (the value pattern stops at the slash): the result then
  has the property \<open>toc\<close>, the empty string, and the loader was called once only.
\<close>

theorem resolve_toc_field_counterexample:
  "fst (resolve \<lparr>selector_resolve = always ''en'',
                 loadFile = serving [(''guide.md'', ''<!-- toc: /nav.md -->'')]\<rparr>
         \<lparr>data_source = Some ''docs'',
          paramMap = \<lparr>keys = [''path''], get = [''path'' \<mapsto> ''guide'']\<rparr>\<rparr>
         \<lparr>cache = None, trace = []\<rparr>)
     = Inr [''body'' \<mapsto> ''<!-- toc: /nav.md -->'', ''path'' \<mapsto> ''guide'', ''toc'' \<mapsto> []]
   \<and> loads (trace (snd (resolve \<lparr>selector_resolve = always ''en'',
                 loadFile = serving [(''guide.md'', ''<!-- toc: /nav.md -->'')]\<rparr>
         \<lparr>data_source = Some ''docs'',
          paramMap = \<lparr>keys = [''path''], get = [''path'' \<mapsto> ''guide'']\<rparr>\<rparr>
         \<lparr>cache = None, trace = []\<rparr>))) = [(''docs'', ''en'', ''guide.md'')]"
proof -
  let ?cs = "\<lparr>selector_resolve = always ''en'',
              loadFile = serving [(''guide.md'', ''<!-- toc: /nav.md -->'')]\<rparr>"
  let ?guide = "\<lparr>data_source = Some ''docs'',
                 paramMap = \<lparr>keys = [''path''], get = [''path'' \<mapsto> ''guide'']\<rparr>\<rparr>"
  have "parseComments (Some ''<!-- toc: /nav.md -->'') = Inr [''toc'' \<mapsto> []]"
    by (simp add: scan_eval)
  then have "resolve ?cs ?guide \<lparr>cache = None, trace = []\<rparr> =
      (Inr ([''body'' \<mapsto> ''<!-- toc: /nav.md -->'', ''path'' \<mapsto> ''guide''] ++ [''toc'' \<mapsto> []]),
       (reset_cache (selector_resolve ?cs ?guide) \<lparr>cache = None, trace = []\<rparr>)
         \<lparr>trace := trace (reset_cache (selector_resolve ?cs ?guide) \<lparr>cache = None, trace = []\<rparr>) @
            [LoadFile (root_of ?guide) (selector_resolve ?cs ?guide) (md_file ''guide'')]\<rparr>)"
    by (intro resolve_without_toc) (simp_all add: path_guide md_file_guide serving_def root_of_def always_def)
  then show ?thesis
    by (simp add: loads_append loads_reset_cache md_file_guide root_of_def always_def)
qed

text \<open>
  C2, amended: the result has a \<open>toc\<close> property only if the metadata has a \<open>toc\<close> key.
  When the value of that key is not empty, the property is the text of the second
  document, which was loaded with success right after the first. When the value is
  empty, no second load is issued and the property is the empty string. When the
  metadata has no \<open>toc\<close> key, there is no second load and the result has no \<open>toc\<close>
  property.
\<close>

theorem resolve_toc_field:
  "(\<forall>r v. fst (resolve cs route s) = Inr r \<and> r ''toc'' = Some v \<longrightarrow>
      (\<exists>path body options t.
         resolvePath (Some (paramMap route)) = Some path
         \<and> loadFile cs (root_of route) (selector_resolve cs route) (md_file path) = Inr body
         \<and> parseComments (Some body) = Inr options
         \<and> options ''toc'' = Some t
         \<and> (if t = []
             then v = []
               \<and> loads (trace (snd (resolve cs route s))) =
                   loads (trace s) @ [(root_of route, selector_resolve cs route, md_file path)]
             else loadFile cs (root_of route) (selector_resolve cs route) t = Inr v
               \<and> loads (trace (snd (resolve cs route s))) =
                   loads (trace s) @ [(root_of route, selector_resolve cs route, md_file path),
                                      (root_of route, selector_resolve cs route, t)])))
   \<and> (\<forall>path body options.
         resolvePath (Some (paramMap route)) = Some path
         \<and> loadFile cs (root_of route) (selector_resolve cs route) (md_file path) = Inr body
         \<and> parseComments (Some body) = Inr options
         \<and> options ''toc'' = None
         \<longrightarrow> (\<exists>r. fst (resolve cs route s) = Inr r \<and> r ''toc'' = None)
             \<and> loads (trace (snd (resolve cs route s))) =
                 loads (trace s) @ [(root_of route, selector_resolve cs route, md_file path)])"
proof (intro conjI allI impI)
  fix r v
  assume a: "fst (resolve cs route s) = Inr r \<and> r ''toc'' = Some v"
  show "\<exists>path body options t.
         resolvePath (Some (paramMap route)) = Some path
         \<and> loadFile cs (root_of route) (selector_resolve cs route) (md_file path) = Inr body
         \<and> parseComments (Some body) = Inr options
         \<and> options ''toc'' = Some t
         \<and> (if t = []
             then v = []
               \<and> loads (trace (snd (resolve cs route s))) =
                   loads (trace s) @ [(root_of route, selector_resolve cs route, md_file path)]
             else loadFile cs (root_of route) (selector_resolve cs route) t = Inr v
               \<and> loads (trace (snd (resolve cs route s))) =
                   loads (trace s) @ [(root_of route, selector_resolve cs route, md_file path),
                                      (root_of route, selector_resolve cs route, t)])"
  proof (cases rule: resolve_cases[of route cs])
    case (primary_failed path e)
    from resolve_primary_failed[OF primary_failed, of s] a show ?thesis
      by auto
  next
    case (without_toc path body options)
    from resolve_without_toc[OF without_toc, of s] a
    have r: "r = [''body'' \<mapsto> body, ''path'' \<mapsto> path] ++ options"
      and l: "loads (trace (snd (resolve cs route s))) =
          loads (trace s) @ [(root_of route, selector_resolve cs route, md_file path)]"
      by (simp_all add: loads_append loads_reset_cache)
    from r a have "options ''toc'' = Some v"
      by (simp add: toc_key_apart)
    with without_toc l show ?thesis
      by (intro exI[of _ path] exI[of _ body] exI[of _ options] exI[of _ "[]"]) auto
  next
    case (toc_failed path body options t e)
    from resolve_toc_failed[OF toc_failed, of s] a show ?thesis
      by auto
  next
    case (with_toc path body options t toc)
    from resolve_with_toc[OF with_toc, of s] a
    have "toc = v"
      and "loads (trace (snd (resolve cs route s))) =
          loads (trace s) @ [(root_of route, selector_resolve cs route, md_file path),
                             (root_of route, selector_resolve cs route, t)]"
      by (auto simp: loads_append loads_reset_cache)
    with with_toc show ?thesis
      by (intro exI[of _ path] exI[of _ body] exI[of _ options] exI[of _ t]) auto
  qed
next
  fix path body options
  assume a: "resolvePath (Some (paramMap route)) = Some path
         \<and> loadFile cs (root_of route) (selector_resolve cs route) (md_file path) = Inr body
         \<and> parseComments (Some body) = Inr options
         \<and> options ''toc'' = None"
  then have r: "resolve cs route s =
     (Inr ([''body'' \<mapsto> body, ''path'' \<mapsto> path] ++ options),
      (reset_cache (selector_resolve cs route) s)
        \<lparr>trace := trace (reset_cache (selector_resolve cs route) s) @
           [LoadFile (root_of route) (selector_resolve cs route) (md_file path)]\<rparr>)"
    by (intro resolve_without_toc) simp_all
  from a show "\<exists>r. fst (resolve cs route s) = Inr r \<and> r ''toc'' = None"
    by (simp add: r toc_key_apart)
  show "loads (trace (snd (resolve cs route s))) =
      loads (trace s) @ [(root_of route, selector_resolve cs route, md_file path)]"
    by (simp add: r loads_append loads_reset_cache)
qed

theorem resolve_toc_field_witness:
  "loads (trace (snd (resolve
       \<lparr>selector_resolve = always ''en'',
        loadFile = serving [(''guide.md'', ''<!-- toc: nav.md -->''), (''nav.md'', ''# Nav''),
                            (''plain.md'', ''<!-- ref: 1.0 -->'')]\<rparr>
       \<lparr>data_source = Some ''docs'',
        paramMap = \<lparr>keys = [''path''], get = [''path'' \<mapsto> ''guide'']\<rparr>\<rparr>
       \<lparr>cache = None, trace = []\<rparr>)))
     = [(''docs'', ''en'', ''guide.md''), (''docs'', ''en'', ''nav.md'')]
   \<and> loads (trace (snd (resolve
       \<lparr>selector_resolve = always ''en'',
        loadFile = serving [(''guide.md'', ''<!-- toc: nav.md -->''), (''nav.md'', ''# Nav''),
                            (''plain.md'', ''<!-- ref: 1.0 -->'')]\<rparr>
       \<lparr>data_source = Some ''docs'',
        paramMap = \<lparr>keys = [''path''], get = [''path'' \<mapsto> ''plain'']\<rparr>\<rparr>
       \<lparr>cache = None, trace = []\<rparr>)))
     = [(''docs'', ''en'', ''plain.md'')]"
proof -
  let ?cs = "\<lparr>selector_resolve = always ''en'',
        loadFile = serving [(''guide.md'', ''<!-- toc: nav.md -->''), (''nav.md'', ''# Nav''),
                            (''plain.md'', ''<!-- ref: 1.0 -->'')]\<rparr>"
  let ?guide = "\<lparr>data_source = Some ''docs'',
        paramMap = \<lparr>keys = [''path''], get = [''path'' \<mapsto> ''guide'']\<rparr>\<rparr>"
  let ?plain = "\<lparr>data_source = Some ''docs'',
        paramMap = \<lparr>keys = [''path''], get = [''path'' \<mapsto> ''plain'']\<rparr>\<rparr>"
  let ?s = "\<lparr>cache = None, trace = []\<rparr>"
  have pc: "parseComments (Some ''<!-- toc: nav.md -->'') = Inr [''toc'' \<mapsto> ''nav.md'']"
    by (simp add: scan_eval)
  have "resolve ?cs ?guide ?s =
     (Inr (([''body'' \<mapsto> ''<!-- toc: nav.md -->'', ''path'' \<mapsto> ''guide''] ++ [''toc'' \<mapsto> ''nav.md''])
             (''toc'' \<mapsto> ''# Nav'')),
      (reset_cache (selector_resolve ?cs ?guide) ?s)
        \<lparr>trace := trace (reset_cache (selector_resolve ?cs ?guide) ?s) @
           [LoadFile (root_of ?guide) (selector_resolve ?cs ?guide) (md_file ''guide''),
            LoadFile (root_of ?guide) (selector_resolve ?cs ?guide) ''nav.md'']\<rparr>)"
    by (intro resolve_with_toc) (simp_all add: path_guide md_file_guide serving_def pc)
  then have "fst (resolve ?cs ?guide ?s) =
        Inr (([''body'' \<mapsto> ''<!-- toc: nav.md -->'', ''path'' \<mapsto> ''guide''] ++ [''toc'' \<mapsto> ''nav.md''])
             (''toc'' \<mapsto> ''# Nav''))
      \<and> (([''body'' \<mapsto> ''<!-- toc: nav.md -->'', ''path'' \<mapsto> ''guide''] ++ [''toc'' \<mapsto> ''nav.md''])
             (''toc'' \<mapsto> ''# Nav'')) ''toc'' = Some ''# Nav''"
    by simp
  with resolve_toc_field[of ?cs ?guide ?s]
  obtain path body options t where
    "resolvePath (Some (paramMap ?guide)) = Some path"
    "loadFile ?cs (root_of ?guide) (selector_resolve ?cs ?guide) (md_file path) = Inr body"
    "parseComments (Some body) = Inr options"
    "options ''toc'' = Some t"
    "if t = []
     then ''# Nav'' = []
       \<and> loads (trace (snd (resolve ?cs ?guide ?s))) =
           loads (trace ?s) @ [(root_of ?guide, selector_resolve ?cs ?guide, md_file path)]
     else loadFile ?cs (root_of ?guide) (selector_resolve ?cs ?guide) t = Inr ''# Nav''
       \<and> loads (trace (snd (resolve ?cs ?guide ?s))) =
           loads (trace ?s) @ [(root_of ?guide, selector_resolve ?cs ?guide, md_file path),
                              (root_of ?guide, selector_resolve ?cs ?guide, t)]"
    by blast
  then have first: "loads (trace (snd (resolve ?cs ?guide ?s)))
      = [(''docs'', ''en'', ''guide.md''), (''docs'', ''en'', ''nav.md'')]"
    by (auto simp: path_guide md_file_guide serving_def pc root_of_def always_def split: if_splits)
  have "resolvePath (Some (paramMap ?plain)) = Some ''plain''
      \<and> loadFile ?cs (root_of ?plain) (selector_resolve ?cs ?plain) (md_file ''plain'') = Inr ''<!-- ref: 1.0 -->''
      \<and> parseComments (Some ''<!-- ref: 1.0 -->'') = Inr [''ref'' \<mapsto> ''1.0'']
      \<and> [''ref'' \<mapsto> ''1.0''] ''toc'' = None"
    by (simp add: path_guide md_file_plain serving_def scan_eval)
  with resolve_toc_field[of ?cs ?plain ?s]
  have "loads (trace (snd (resolve ?cs ?plain ?s))) =
      loads (trace ?s) @ [(root_of ?plain, selector_resolve ?cs ?plain, md_file ''plain'')]"
    by blast
  then have second: "loads (trace (snd (resolve ?cs ?plain ?s))) = [(''docs'', ''en'', ''plain.md'')]"
    by (simp add: md_file_plain root_of_def always_def)
  from first second show ?thesis
    by simp
qed

text \<open>
  C5: \<open>resolve\<close> replaces the cache by a fresh entry for the resolved language exactly
  when that language differs from the language of the entry it holds, or it holds none;
  the replacement comes before the first call of the loader, and nothing resets the cache
  after it. A second \<open>resolve\<close> for the same language keeps the entry and resets nothing.
\<close>

theorem resolve_resets_cache:
  "(let l = selector_resolve cs route;
        differs = (case cache s of None \<Rightarrow> True | Some c \<Rightarrow> l \<noteq> lang c);
        s' = snd (resolve cs route s)
    in cache s' = (if differs then Some \<lparr>lang = l, entries = Map.empty\<rparr> else cache s)
       \<and> (\<exists>file evs.
             trace s' = trace s @ (if differs then [ResetCache l] else [])
                          @ LoadFile (root_of route) l file # evs
             \<and> resets evs = [])
       \<and> (selector_resolve cs' route' = l \<longrightarrow>
             cache (snd (resolve cs' route' s')) = cache s'
             \<and> resets (trace (snd (resolve cs' route' s'))) = resets (trace s')))"
proof -
  let ?l = "selector_resolve cs route"
  let ?differs = "case cache s of None \<Rightarrow> True | Some c \<Rightarrow> ?l \<noteq> lang c"
  let ?s' = "snd (resolve cs route s)"
  from resolve_effects[of route cs s] obtain path evs where first:
    "cache ?s' = cache (reset_cache ?l s)"
    "trace ?s' = trace (reset_cache ?l s) @ LoadFile (root_of route) ?l (md_file path) # evs"
    "resets evs = []"
    by blast
  have c: "cache ?s' = (if ?differs then Some \<lparr>lang = ?l, entries = Map.empty\<rparr> else cache s)"
    by (simp add: first(1) cache_reset_cache)
  have t: "\<exists>file evs.
      trace ?s' = trace s @ (if ?differs then [ResetCache ?l] else []) @ LoadFile (root_of route) ?l file # evs
      \<and> resets evs = []"
    using first(2,3) by (intro exI[of _ "md_file path"] exI[of _ evs]) (simp add: trace_reset_cache)
  have again: "cache (snd (resolve cs' route' ?s')) = cache ?s'
      \<and> resets (trace (snd (resolve cs' route' ?s'))) = resets (trace ?s')"
    if same: "selector_resolve cs' route' = ?l"
  proof -
    have held: "\<not> (case cache ?s' of None \<Rightarrow> True | Some c \<Rightarrow> ?l \<noteq> lang c)"
      by (simp add: c split: option.splits)
    then have keep: "reset_cache ?l ?s' = ?s'"
      by (simp add: reset_cache_def)
    from resolve_effects[of route' cs' ?s'] obtain path' evs' where
      "cache (snd (resolve cs' route' ?s')) = cache (reset_cache ?l ?s')"
      "trace (snd (resolve cs' route' ?s')) =
         trace (reset_cache ?l ?s') @ LoadFile (root_of route') ?l (md_file path') # evs'"
      "resets evs' = []"
      unfolding same by blast
    then show ?thesis
      by (simp add: keep resets_append)
  qed
  from c t again show ?thesis
    unfolding Let_def by blast
qed

theorem resolve_resets_cache_witness:
  "cache (snd (resolve \<lparr>selector_resolve = always ''it'', loadFile = serving []\<rparr>
         \<lparr>data_source = None, paramMap = \<lparr>keys = [], get = Map.empty\<rparr>\<rparr>
         \<lparr>cache = Some \<lparr>lang = ''en'', entries = [''k'' \<mapsto> ''v'']\<rparr>, trace = []\<rparr>))
     = Some \<lparr>lang = ''it'', entries = Map.empty\<rparr>
   \<and> resets (trace (snd (resolve \<lparr>selector_resolve = always ''it'', loadFile = serving []\<rparr>
         \<lparr>data_source = None, paramMap = \<lparr>keys = [], get = Map.empty\<rparr>\<rparr>
         (snd (resolve \<lparr>selector_resolve = always ''it'', loadFile = serving []\<rparr>
           \<lparr>data_source = None, paramMap = \<lparr>keys = [], get = Map.empty\<rparr>\<rparr>
           \<lparr>cache = Some \<lparr>lang = ''en'', entries = [''k'' \<mapsto> ''v'']\<rparr>, trace = []\<rparr>)))))
     = [''it'']"
proof -
  let ?cs = "\<lparr>selector_resolve = always ''it'', loadFile = serving []\<rparr>"
  let ?route = "\<lparr>data_source = None, paramMap = \<lparr>keys = [], get = Map.empty\<rparr>\<rparr>"
  let ?s = "\<lparr>cache = Some \<lparr>lang = ''en'', entries = [''k'' \<mapsto> ''v'']\<rparr>, trace = []\<rparr>"
  let ?s' = "snd (resolve ?cs ?route ?s)"
  from resolve_resets_cache[of ?cs ?route ?s ?cs ?route]
  have c: "cache ?s' = Some \<lparr>lang = ''it'', entries = Map.empty\<rparr>"
    and t: "\<exists>file evs. trace ?s' = [ResetCache ''it''] @ LoadFile (root_of ?route) ''it'' file # evs
        \<and> resets evs = []"
    and again: "resets (trace (snd (resolve ?cs ?route ?s'))) = resets (trace ?s')"
    by (simp_all add: Let_def always_def)
  from t have "resets (trace ?s') = [''it'']"
    by (auto simp: resets_append)
  with c again show ?thesis
    by simp
qed

text \<open>
  C9: when the metadata has the key \<open>toc\<close> with the empty value, \<open>resolve\<close> issues no
  second load, and the result, the body and the path overlaid with all the metadata,
  has the property \<open>toc\<close>, the empty string.
\<close>

theorem resolve_empty_toc:
  "resolvePath (Some (paramMap route)) = Some path \<Longrightarrow>
   loadFile cs (root_of route) (selector_resolve cs route) (md_file path) = Inr body \<Longrightarrow>
   parseComments (Some body) = Inr options \<Longrightarrow>
   options ''toc'' = Some [] \<Longrightarrow>
   (\<exists>r. fst (resolve cs route s) = Inr r
        \<and> r = [''body'' \<mapsto> body, ''path'' \<mapsto> path] ++ options
        \<and> r ''toc'' = Some [])
   \<and> loads (trace (snd (resolve cs route s))) =
       loads (trace s) @ [(root_of route, selector_resolve cs route, md_file path)]"
proof -
  assume a: "resolvePath (Some (paramMap route)) = Some path"
    "loadFile cs (root_of route) (selector_resolve cs route) (md_file path) = Inr body"
    "parseComments (Some body) = Inr options"
    "options ''toc'' = Some []"
  then have r: "resolve cs route s =
     (Inr ([''body'' \<mapsto> body, ''path'' \<mapsto> path] ++ options),
      (reset_cache (selector_resolve cs route) s)
        \<lparr>trace := trace (reset_cache (selector_resolve cs route) s) @
           [LoadFile (root_of route) (selector_resolve cs route) (md_file path)]\<rparr>)"
    by (intro resolve_without_toc) simp_all
  from a(4) show ?thesis
    by (simp add: r toc_key_apart loads_append loads_reset_cache)
qed

theorem resolve_empty_toc_witness:
  "parseComments (Some ''<!-- toc: -->'') = Inr [''toc'' \<mapsto> []]
   \<and> fst (resolve \<lparr>selector_resolve = always ''en'',
                   loadFile = serving [(''guide.md'', ''<!-- toc: -->'')]\<rparr>
           \<lparr>data_source = None,
            paramMap = \<lparr>keys = [''path''], get = [''path'' \<mapsto> ''guide'']\<rparr>\<rparr>
           \<lparr>cache = None, trace = []\<rparr>)
       = Inr [''body'' \<mapsto> ''<!-- toc: -->'', ''path'' \<mapsto> ''guide'', ''toc'' \<mapsto> []]
   \<and> loads (trace (snd (resolve \<lparr>selector_resolve = always ''en'',
                   loadFile = serving [(''guide.md'', ''<!-- toc: -->'')]\<rparr>
           \<lparr>data_source = None,
            paramMap = \<lparr>keys = [''path''], get = [''path'' \<mapsto> ''guide'']\<rparr>\<rparr>
           \<lparr>cache = None, trace = []\<rparr>)))
       = [(''assets/docs'', ''en'', ''guide.md'')]"
proof -
  let ?cs = "\<lparr>selector_resolve = always ''en'',
              loadFile = serving [(''guide.md'', ''<!-- toc: -->'')]\<rparr>"
  let ?guide = "\<lparr>data_source = None,
                 paramMap = \<lparr>keys = [''path''], get = [''path'' \<mapsto> ''guide'']\<rparr>\<rparr>"
  let ?s = "\<lparr>cache = None, trace = []\<rparr>"
  have pc: "parseComments (Some ''<!-- toc: -->'') = Inr [''toc'' \<mapsto> []]"
    by (simp add: scan_eval)
  have "(\<exists>r. fst (resolve ?cs ?guide ?s) = Inr r
        \<and> r = [''body'' \<mapsto> ''<!-- toc: -->'', ''path'' \<mapsto> ''guide''] ++ [''toc'' \<mapsto> []]
        \<and> r ''toc'' = Some [])
     \<and> loads (trace (snd (resolve ?cs ?guide ?s))) =
       loads (trace ?s) @ [(root_of ?guide, selector_resolve ?cs ?guide, md_file ''guide'')]"
    by (rule resolve_empty_toc) (simp_all add: path_guide md_file_guide serving_def pc)
  with pc show ?thesis
    by (simp add: md_file_guide root_of_def always_def)
qed

text \<open>
  C10: what \<open>resolve\<close> emits does not depend on the cache or on anything else in the
  state of the resolver, and the primary document is loaded every time.
\<close>

theorem resolve_ignores_cache:
  "fst (resolve cs route s) = fst (resolve cs route s')
   \<and> (\<exists>path rest.
         resolvePath (Some (paramMap route)) = Some path
         \<and> loads (trace (snd (resolve cs route s))) =
             loads (trace s) @ (root_of route, selector_resolve cs route, md_file path) # rest)"
proof
  show "fst (resolve cs route s) = fst (resolve cs route s')"
  proof (cases rule: resolve_cases[of route cs])
    case primary_failed
    then show ?thesis by (simp add: resolve_primary_failed)
  next
    case without_toc
    then show ?thesis by (simp add: resolve_without_toc)
  next
    case toc_failed
    then show ?thesis by (simp add: resolve_toc_failed)
  next
    case with_toc
    then show ?thesis by (simp add: resolve_with_toc)
  qed
next
  from resolve_effects[of route cs s] obtain path evs where
    "resolvePath (Some (paramMap route)) = Some path"
    "trace (snd (resolve cs route s)) =
       trace (reset_cache (selector_resolve cs route) s) @
       LoadFile (root_of route) (selector_resolve cs route) (md_file path) # evs"
    by blast
  then show "\<exists>path rest.
         resolvePath (Some (paramMap route)) = Some path
         \<and> loads (trace (snd (resolve cs route s))) =
             loads (trace s) @ (root_of route, selector_resolve cs route, md_file path) # rest"
    by (intro exI[of _ path] exI[of _ "loads evs"]) (simp add: loads_append loads_reset_cache)
qed


theorem resolve_ignores_cache_witness:
  "fst (resolve \<lparr>selector_resolve = always ''en'',
                 loadFile = serving [(''guide.md'', ''# Guide'')]\<rparr>
         \<lparr>data_source = Some ''docs'',
          paramMap = \<lparr>keys = [''path''], get = [''path'' \<mapsto> ''guide'']\<rparr>\<rparr>
         \<lparr>cache = None, trace = []\<rparr>)
   = fst (resolve \<lparr>selector_resolve = always ''en'',
                 loadFile = serving [(''guide.md'', ''# Guide'')]\<rparr>
         \<lparr>data_source = Some ''docs'',
          paramMap = \<lparr>keys = [''path''], get = [''path'' \<mapsto> ''guide'']\<rparr>\<rparr>
         \<lparr>cache = Some \<lparr>lang = ''en'', entries = [''guide.md'' \<mapsto> ''stale'']\<rparr>,
          trace = [LoadFile ''docs'' ''en'' ''guide.md'']\<rparr>)"
  using resolve_ignores_cache[of
      "\<lparr>selector_resolve = always ''en'', loadFile = serving [(''guide.md'', ''# Guide'')]\<rparr>"
      "\<lparr>data_source = Some ''docs'',
        paramMap = \<lparr>keys = [''path''], get = [''path'' \<mapsto> ''guide'']\<rparr>\<rparr>"
      "\<lparr>cache = None, trace = []\<rparr>"
      "\<lparr>cache = Some \<lparr>lang = ''en'', entries = [''guide.md'' \<mapsto> ''stale'']\<rparr>,
        trace = [LoadFile ''docs'' ''en'' ''guide.md'']\<rparr>"]
  by blast

subsection \<open>Metadata extraction\<close>

text \<open>
  C6, at the input \<^verbatim>\<open><!-- __proto__: x -->\<close>: the scan finds the pair, but the
  assignment \<^verbatim>\<open>out['__proto__'] = 'x'\<close> adds no property to \<open>out\<close>, and the result is
  the empty map. A pair with any other key, such as \<^verbatim>\<open>proto\<close>, is stored.
\<close>

theorem parseComments_proto_key:
  "parseComments (Some ''<!-- __proto__: x -->'') = Inr Map.empty
   \<and> parseComments (Some ''<!-- proto: x -->'') = Inr [''proto'' \<mapsto> ''x'']"
  by (simp add: scan_eval)

text \<open>
  C7: the scanning loop ends on every input. Each iteration leaves \<open>lastIndex\<close> at least
  one position further than it found it, also after a match of the empty string; the
  loop calls its callback at most once per position of the input and once more at its
  end; and when the callback does not throw, the loop returns, with \<open>lastIndex\<close> back
  at 0.
\<close>

theorem parse_cursor_advances:
  "(\<forall>m li'. exec r source li = (Some m, li') \<longrightarrow> li < (if index m = li' then li' + 1 else li'))
   \<and> (\<exists>k. parse_loop r source (\<lambda>m n. Inr (Suc n)) li 0 = Inr (0, k)
           \<and> k \<le> Suc (length source) - li)
   \<and> ((\<forall>m st. \<exists>st'. fn m st = Inr st') \<longrightarrow>
         (\<exists>st'. parse r source (Some fn) li st = Inr (0, st')))"
proof (intro conjI allI impI)
  fix m li'
  assume "exec r source li = (Some m, li')"
  from exec_bounds[OF this] show "li < (if index m = li' then li' + 1 else li')"
    by auto
next
  from parse_loop_count[of r source li 0]
  show "\<exists>k. parse_loop r source (\<lambda>m n. Inr (Suc n)) li 0 = Inr (0, k) \<and> k \<le> Suc (length source) - li"
    by simp
next
  assume "\<forall>m st. \<exists>st'. fn m st = Inr st'"
  then show "\<exists>st'. parse r source (Some fn) li st = Inr (0, st')"
    by (rule parse_returns)
qed

theorem parse_cursor_advances_witness:
  "exec (Star (Cls [Digit])) ''ab'' 0 = (Some \<lparr>index = 0, groups = [0 \<mapsto> []]\<rparr>, 0)
   \<and> (0::nat) < (if index \<lparr>index = 0, groups = [0 \<mapsto> []]\<rparr> = 0 then 0 + 1 else 0)
   \<and> parse_loop (Star (Cls [Digit])) ''ab'' (\<lambda>m n. Inr (Suc n)) 0 0 = Inr (0, 3)"
proof -
  have e: "exec (Star (Cls [Digit])) ''ab'' 0 = (Some \<lparr>index = 0, groups = [0 \<mapsto> []]\<rparr>, 0)"
    by (simp add: scan_eval)
  have "\<forall>m li'. exec (Star (Cls [Digit])) ''ab'' 0 = (Some m, li') \<longrightarrow>
      0 < (if index m = li' then li' + 1 else li')"
    using parse_cursor_advances[of "Star (Cls [Digit])" "''ab''" 0 "\<lambda>m (n::nat). Inr n" 0]
    by (rule conjunct1)
  with e have "(0::nat) < (if index \<lparr>index = 0, groups = [0 \<mapsto> []]\<rparr> = 0 then 0 + 1 else 0)"
    by blast
  moreover have "parse_loop (Star (Cls [Digit])) ''ab'' (\<lambda>m n. Inr (Suc n)) 0 0 = Inr (0, 3)"
    by (simp add: scan_eval)
  ultimately show ?thesis
    using e by blast
qed

text \<open>
  C8: metadata extraction returns the empty map for \<^verbatim>\<open>undefined\<close>, for \<^verbatim>\<open>null\<close> and
  for the empty string, and it never throws, whatever the input. Text in which no
  comment is both opened and closed gives the empty map.
\<close>

theorem parseComments_never_fails:
  "parseComments None = Inr Map.empty
   \<and> parseComments (Some []) = Inr Map.empty
   \<and> (\<exists>out. parseComments source = Inr out)
   \<and> (\<forall>src. \<not> sublist ''<!--'' src \<or> \<not> sublist ''-->'' src \<longrightarrow>
         parseComments (Some src) = Inr Map.empty)"
  using parseComments_returns[of source] parseComments_without_comment
  by (simp add: parseComments_def)

theorem parseComments_never_fails_witness:
  "parseComments (Some ''<!-- toc: a.md'') = Inr Map.empty
   \<and> parseComments (Some ''toc: a.md -->'') = Inr Map.empty"
proof -
  have "\<not> sublist ''-->'' ''<!-- toc: a.md''" and "\<not> sublist ''<!--'' ''toc: a.md -->''"
    by (simp_all add: sublist_code(3))
  with parseComments_never_fails[of None] show ?thesis
    by blast
qed

subsection \<open>Further properties\<close>

text \<open>
  X1: for every key but \<^verbatim>\<open>__proto__\<close>, the value metadata extraction returns is that of the
  last pair with this key, with the comments taken in document order and the pairs of a
  comment in their order of appearance; a key no pair has is absent, and so is
  \<^verbatim>\<open>__proto__\<close>.
\<close>

theorem parseComments_last_wins:
  "\<exists>out. parseComments (Some source) = Inr out
     \<and> (\<forall>k. k \<noteq> ''__proto__'' \<longrightarrow> out k = map_of (rev (metadata_pairs source)) k)
     \<and> out ''__proto__'' = None"
  by (simp add: parseComments_fold fold_assign split: option.splits)

theorem parseComments_last_wins_witness:
  "metadata_pairs ''<!-- toc: a.md ref: 1 toc: b.md --><!-- toc: c.md -->'' =
     [(''toc'', ''a.md''), (''ref'', ''1''), (''toc'', ''b.md''), (''toc'', ''c.md'')]
   \<and> (\<exists>out. parseComments (Some ''<!-- toc: a.md ref: 1 toc: b.md --><!-- toc: c.md -->'') = Inr out
         \<and> out ''toc'' = Some ''c.md'' \<and> out ''ref'' = Some ''1'')"
proof -
  have p: "metadata_pairs ''<!-- toc: a.md ref: 1 toc: b.md --><!-- toc: c.md -->'' =
     [(''toc'', ''a.md''), (''ref'', ''1''), (''toc'', ''b.md''), (''toc'', ''c.md'')]"
    by (simp add: metadata_pairs_def pairs_in_def scan.simps scan_eval)
  from parseComments_last_wins[of "''<!-- toc: a.md ref: 1 toc: b.md --><!-- toc: c.md -->''"]
  obtain out where
    "parseComments (Some ''<!-- toc: a.md ref: 1 toc: b.md --><!-- toc: c.md -->'') = Inr out"
    "\<forall>k. k \<noteq> ''__proto__'' \<longrightarrow>
       out k = map_of (rev (metadata_pairs ''<!-- toc: a.md ref: 1 toc: b.md --><!-- toc: c.md -->'')) k"
    by blast
  then have "parseComments (Some ''<!-- toc: a.md ref: 1 toc: b.md --><!-- toc: c.md -->'') = Inr out
      \<and> out ''toc'' = Some ''c.md'' \<and> out ''ref'' = Some ''1''"
    by (simp add: p)
  with p show ?thesis
    by blast
qed

text \<open>
  X2: the scanning loop hands its matches over in document order, and no match starts before
  the one before it has ended.
\<close>

theorem scan_in_document_order:
  "sorted_wrt (\<lambda>a b. index a + length (capture a 0) \<le> index b) (scan r source li)"
proof (induction r source li rule: scan.induct)
  case (1 r s li)
  show ?case
  proof (cases "exec r s li")
    case (Pair x li')
    show ?thesis
    proof (cases x)
      case None
      with Pair show ?thesis
        by (simp add: scan.simps[of r s li])
    next
      case (Some m)
      let ?next = "if index m = li' then li' + 1 else li'"
      from Pair Some have e: "exec r s li = (Some m, li')"
        by simp
      have "index m + length (capture m 0) \<le> index b" if "b \<in> set (scan r s ?next)" for b
        using scan_from[OF that] exec_match[OF e] by (auto split: if_splits)
      with "1.IH"[OF Pair[symmetric] Some] Pair Some show ?thesis
        by (simp add: scan.simps[of r s li])
    qed
  qed
qed

theorem scan_in_document_order_witness:
  "map (\<lambda>m. (index m, capture m 0)) (scan pairs ''a:1 b:2'' 0) = [(0, ''a:1 ''), (4, ''b:2'')]
   \<and> sorted_wrt (\<lambda>a b. index a + length (capture a 0) \<le> index b) (scan pairs ''a:1 b:2'' 0)"
  using scan_in_document_order[of pairs "''a:1 b:2''" 0]
  by (simp add: scan.simps scan_eval)

text \<open>
  X3: the file \<open>resolve\<close> loads for a path: a trailing extension, a dot followed by word
  characters only up to the end of the path, is replaced by \<^verbatim>\<open>.md\<close>; a path without
  one gets \<^verbatim>\<open>.md\<close> appended.
\<close>

theorem md_file_strips_extension:
  "(ext \<noteq> [] \<and> list_all is_word ext \<longrightarrow> md_file (stem @ ''.'' @ ext) = stem @ ''.md'')
   \<and> (\<not> (\<exists>stem ext. path = stem @ ''.'' @ ext \<and> ext \<noteq> [] \<and> list_all is_word ext) \<longrightarrow>
        md_file path = path @ ''.md'')"
  using md_file_with_extension md_file_without_extension by blast

theorem md_file_strips_extension_witness:
  "md_file ''intro/guide.html'' = ''intro/guide.md''
   \<and> md_file ''v1.2/guide'' = ''v1.2/guide.md''"
proof -
  have "md_file (''intro/guide'' @ ''.'' @ ''html'') = ''intro/guide'' @ ''.md''"
    using md_file_strips_extension[of "''html''" "''intro/guide''"]
    by (simp add: is_word_def)
  moreover have "md_file ''v1.2/guide'' = ''v1.2/guide'' @ ''.md''"
    by (simp add: md_file_def remove_first_def extension_def scan_eval)
  ultimately show ?thesis
    by simp
qed

text \<open>
  X4, an example of the specification: a comment over two lines with two pairs gives
  both.
\<close>

theorem parseComments_nav_example:
  "parseComments (Some ''<!-- toc: nav.md\<newline>ref: v1 -->'') =
     Inr [''toc'' \<mapsto> ''nav.md'', ''ref'' \<mapsto> ''v1'']"
  by (simp add: scan_eval)

text \<open>
  X5, the end-to-end example of the specification: the path \<^verbatim>\<open>guide\<close> under the root
  \<^verbatim>\<open>docs\<close> in English, on a resolver that has served no request yet.
\<close>

theorem resolve_guide_example:
  "resolve \<lparr>selector_resolve = always ''en'',
            loadFile = serving [(''guide.md'', ''# Guide\<newline><!-- ref: 1.0 -->'')]\<rparr>
     \<lparr>data_source = Some ''docs'',
      paramMap = \<lparr>keys = [''path''], get = [''path'' \<mapsto> ''guide'']\<rparr>\<rparr>
     \<lparr>cache = None, trace = []\<rparr>
   = (Inr [''body'' \<mapsto> ''# Guide\<newline><!-- ref: 1.0 -->'',
           ''path'' \<mapsto> ''guide'', ''ref'' \<mapsto> ''1.0''],
      \<lparr>cache = Some \<lparr>lang = ''en'', entries = Map.empty\<rparr>,
       trace = [ResetCache ''en'', LoadFile ''docs'' ''en'' ''guide.md'']\<rparr>)"
proof -
  let ?cs = "\<lparr>selector_resolve = always ''en'',
            loadFile = serving [(''guide.md'', ''# Guide\<newline><!-- ref: 1.0 -->'')]\<rparr>"
  let ?guide = "\<lparr>data_source = Some ''docs'',
      paramMap = \<lparr>keys = [''path''], get = [''path'' \<mapsto> ''guide'']\<rparr>\<rparr>"
  let ?s = "\<lparr>cache = None, trace = []\<rparr>"
  have pc: "parseComments (Some (''# Guide\<newline><!-- ref: 1.0 -->'')) = Inr [''ref'' \<mapsto> ''1.0'']"
    by (simp add: scan_eval)
  have "resolve ?cs ?guide ?s =
     (Inr ([''body'' \<mapsto> ''# Guide\<newline><!-- ref: 1.0 -->'', ''path'' \<mapsto> ''guide'']
            ++ [''ref'' \<mapsto> ''1.0'']),
      (reset_cache (selector_resolve ?cs ?guide) ?s)
        \<lparr>trace := trace (reset_cache (selector_resolve ?cs ?guide) ?s) @
           [LoadFile (root_of ?guide) (selector_resolve ?cs ?guide) (md_file ''guide'')]\<rparr>)"
    by (rule resolve_without_toc) (simp_all add: path_guide md_file_guide serving_def pc)
  then show ?thesis
    by (simp add: md_file_guide root_of_def always_def reset_cache_def)
qed

end
